theory Spec2Isabelle
  imports Main "HOL-Library.Word"
begin

section \<open>Value numbering for tree expressions (tree-vn.c)\<close>

text \<open>
  A shallow embedding of \<^verbatim>\<open>gcc/tree-vn.c\<close>: the value table that maps expressions
  (with their virtual uses) to value handles, and the per-node value-handle association.
  Trees are addresses into a heap of nodes; every function of the file is a function
  on an explicit state that holds the heap, the static \<^verbatim>\<open>value_table\<close> and the static
  counter of \<^verbatim>\<open>make_value_handle\<close>.  Aborts (failed \<^verbatim>\<open>gcc_assert\<close>,
  \<^verbatim>\<open>gcc_unreachable\<close>, dereferencing something that is not a node) are values.
\<close>

subsection \<open>Aborts\<close>

datatype abort = ASSERT_FAILED | UNREACHABLE | SEGV

definition and_then :: "abort + 'a \<Rightarrow> ('a \<Rightarrow> abort + 'b) \<Rightarrow> abort + 'b" where
  "and_then m f = (case m of Inl a \<Rightarrow> Inl a | Inr x \<Rightarrow> f x)"

text \<open>Modelled from the spec: \<^verbatim>\<open>gcc_assert\<close> (system.h) is a fatal assertion, the process
  aborts when the condition is false.\<close>

definition gcc_assert :: "bool \<Rightarrow> abort + unit" where
  "gcc_assert b = (if b then Inr () else Inl ASSERT_FAILED)"

subsection \<open>Tree nodes\<close>

type_synonym tree = nat

definition NULL_TREE :: tree where
  "NULL_TREE = 0"

type_synonym hashval_t = "32 word"

text \<open>Modelled from the spec: the node kinds of tree.def, their classes and the macros
  \<^verbatim>\<open>TREE_CODE_CLASS\<close>, \<^verbatim>\<open>IS_EXPR_CODE_CLASS\<close>, \<^verbatim>\<open>EXPR_P\<close> and \<^verbatim>\<open>DECL_P\<close> (tree.h) are
  not among the sources.  The codes this file names (\<^verbatim>\<open>SSA_NAME\<close>, \<^verbatim>\<open>VALUE_HANDLE\<close>)
  and a few codes of every class are listed; \<open>OTHER_CODE\<close> stands for any further code of
  a class.  A node is an expression when its class is one of comparison, unary, binary,
  expression, reference and statement, and a declaration when its class is declaration:
  the three kinds of node the specification tells apart (variable reference, general
  node, constant) are decided from the code.\<close>

datatype tree_code_class =
    tcc_exceptional | tcc_constant | tcc_type | tcc_declaration | tcc_reference
  | tcc_comparison | tcc_unary | tcc_binary | tcc_statement | tcc_expression

datatype tree_code =
    SSA_NAME | VALUE_HANDLE | TREE_LIST
  | INTEGER_CST | REAL_CST
  | INTEGER_TYPE | POINTER_TYPE
  | VAR_DECL | PARM_DECL
  | INDIRECT_REF
  | EQ_EXPR
  | NEGATE_EXPR | NOP_EXPR
  | PLUS_EXPR | MULT_EXPR
  | ADDR_EXPR | MODIFY_EXPR
  | OTHER_CODE tree_code_class

fun TREE_CODE_CLASS :: "tree_code \<Rightarrow> tree_code_class" where
  "TREE_CODE_CLASS SSA_NAME = tcc_exceptional"
| "TREE_CODE_CLASS VALUE_HANDLE = tcc_exceptional"
| "TREE_CODE_CLASS TREE_LIST = tcc_exceptional"
| "TREE_CODE_CLASS INTEGER_CST = tcc_constant"
| "TREE_CODE_CLASS REAL_CST = tcc_constant"
| "TREE_CODE_CLASS INTEGER_TYPE = tcc_type"
| "TREE_CODE_CLASS POINTER_TYPE = tcc_type"
| "TREE_CODE_CLASS VAR_DECL = tcc_declaration"
| "TREE_CODE_CLASS PARM_DECL = tcc_declaration"
| "TREE_CODE_CLASS INDIRECT_REF = tcc_reference"
| "TREE_CODE_CLASS EQ_EXPR = tcc_comparison"
| "TREE_CODE_CLASS NEGATE_EXPR = tcc_unary"
| "TREE_CODE_CLASS NOP_EXPR = tcc_unary"
| "TREE_CODE_CLASS PLUS_EXPR = tcc_binary"
| "TREE_CODE_CLASS MULT_EXPR = tcc_binary"
| "TREE_CODE_CLASS ADDR_EXPR = tcc_expression"
| "TREE_CODE_CLASS MODIFY_EXPR = tcc_expression"
| "TREE_CODE_CLASS (OTHER_CODE cls) = cls"

fun IS_EXPR_CODE_CLASS :: "tree_code_class \<Rightarrow> bool" where
  "IS_EXPR_CODE_CLASS tcc_comparison = True"
| "IS_EXPR_CODE_CLASS tcc_unary = True"
| "IS_EXPR_CODE_CLASS tcc_binary = True"
| "IS_EXPR_CODE_CLASS tcc_expression = True"
| "IS_EXPR_CODE_CLASS tcc_reference = True"
| "IS_EXPR_CODE_CLASS tcc_statement = True"
| "IS_EXPR_CODE_CLASS _ = False"

text \<open>The annotation of a node (\<^verbatim>\<open>union tree_ann_d\<close>): the fields of its common part
  that this file reads and writes, \<^verbatim>\<open>common.type\<close> and \<^verbatim>\<open>common.value_handle\<close>.  Of a
  node: its code, its type, its annotation (\<^verbatim>\<open>common.ann\<close>, \<open>None\<close> when null), and the
  fields behind \<^verbatim>\<open>SSA_NAME_VALUE\<close>, \<^verbatim>\<open>VALUE_HANDLE_ID\<close> and
  \<^verbatim>\<open>VALUE_HANDLE_EXPR_SET\<close>.\<close>

datatype tree_ann_type = TREE_ANN_COMMON | VAR_ANN | STMT_ANN

record tree_ann_d =
  ann_type :: tree_ann_type
  value_handle :: tree

record tree_node =
  node_code :: tree_code
  node_type :: tree
  node_ann :: "tree_ann_d option"
  ssa_name_value :: tree
  value_handle_id :: "32 word"
  value_handle_expr_set :: "tree list"

definition EXPR_P :: "tree_node \<Rightarrow> bool" where
  "EXPR_P n = IS_EXPR_CODE_CLASS (TREE_CODE_CLASS (node_code n))"

definition DECL_P :: "tree_node \<Rightarrow> bool" where
  "DECL_P n = (TREE_CODE_CLASS (node_code n) = tcc_declaration)"

subsection \<open>Virtual uses and table entries\<close>

text \<open>Modelled from the spec: a \<^verbatim>\<open>vuse_optype\<close> (tree-flow.h) is a pointer to the
  ordered virtual-use operands of a statement; it may be NULL, which \<^verbatim>\<open>NUM_VUSES\<close> reads
  as zero operands.  \<open>vuse_ops\<close> gives the operands that \<^verbatim>\<open>VUSE_OP\<close> indexes.\<close>

type_synonym vuse_optype = "tree list option"

definition vuse_ops :: "vuse_optype \<Rightarrow> tree list" where
  "vuse_ops vuses = (case vuses of None \<Rightarrow> [] | Some ops \<Rightarrow> ops)"

definition NUM_VUSES :: "vuse_optype \<Rightarrow> nat" where
  "NUM_VUSES vuses = length (vuse_ops vuses)"

text \<open>\<^verbatim>\<open>struct val_expr_pair_d\<close>: the value handle \<^verbatim>\<open>v\<close>, the expression \<^verbatim>\<open>e\<close>, the
  virtual uses in \<^verbatim>\<open>e\<close> and the hash value of \<^verbatim>\<open>e\<close>.  The table holds pointers to
  such pairs, each pair reachable from its slot only, so a slot holds the pair itself.\<close>

record val_expr_pair =
  pair_v :: tree
  pair_e :: tree
  pair_vuses :: vuse_optype
  pair_hashcode :: hashval_t

type_synonym htab = "val_expr_pair option list"

datatype insert_option = NO_INSERT | INSERT

subsection \<open>The state and the collaborators\<close>

text \<open>The state: the heap of tree nodes, the static \<^verbatim>\<open>value_table\<close> (\<open>None\<close> when the
  pointer is null, as it is before \<open>vn_init\<close> and after \<open>vn_delete\<close>) and the static
  \<^verbatim>\<open>unsigned int id\<close> of \<open>make_value_handle\<close>.\<close>

record vn_state =
  nodes :: "tree_node list"
  value_table :: "htab option"
  id_static :: "32 word"

text \<open>Modelled from the spec: the IR provider and the type-compatibility oracle
  (\<^verbatim>\<open>is_gimple_min_invariant\<close>, \<^verbatim>\<open>lang_hooks.types_compatible_p\<close>, \<^verbatim>\<open>operand_equal_p\<close>
  with \<^verbatim>\<open>OEP_PURE_SAME\<close>, \<^verbatim>\<open>iterative_hash_expr\<close>) are external collaborators whose code
  is not among the sources.  They are parameters.  They read the kind, the type, the flags
  and the operands of a node, which nothing in this file writes, so they are functions of
  node addresses.\<close>

record ir_provider =
  ir_is_gimple_min_invariant :: "tree \<Rightarrow> bool"
  ir_types_compatible_p :: "tree \<Rightarrow> tree \<Rightarrow> bool"
  ir_operand_equal_p :: "tree \<Rightarrow> tree \<Rightarrow> bool"
  ir_iterative_hash_expr :: "tree \<Rightarrow> hashval_t \<Rightarrow> hashval_t"

definition valid_tree :: "vn_state \<Rightarrow> tree \<Rightarrow> bool" where
  "valid_tree s t \<longleftrightarrow> 0 < t \<and> t \<le> length (nodes s)"

text \<open>The heap holds the node of address \<open>t\<close> at position \<open>t - 1\<close>; address 0 is
  \<open>NULL_TREE\<close>.\<close>

definition node_at :: "vn_state \<Rightarrow> tree \<Rightarrow> tree_node" where
  "node_at s t = nodes s ! (t - 1)"

definition deref :: "vn_state \<Rightarrow> tree \<Rightarrow> abort + tree_node" where
  "deref s t = (if valid_tree s t then Inr (node_at s t) else Inl SEGV)"

definition store :: "vn_state \<Rightarrow> tree \<Rightarrow> tree_node \<Rightarrow> vn_state" where
  "store s t n = s\<lparr>nodes := (nodes s)[t - 1 := n]\<rparr>"

definition is_gimple_min_invariant :: "ir_provider \<Rightarrow> vn_state \<Rightarrow> tree \<Rightarrow> abort + bool" where
  "is_gimple_min_invariant c s t =
     and_then (deref s t) (\<lambda>_. Inr (ir_is_gimple_min_invariant c t))"

text \<open>Modelled from the spec: \<^verbatim>\<open>build0\<close> (tree.c) allocates a fresh node of the given kind
  and type.\<close>

definition make_node :: "tree_code \<Rightarrow> tree \<Rightarrow> tree_node" where
  "make_node code tt =
     \<lparr>node_code = code, node_type = tt, node_ann = None, ssa_name_value = NULL_TREE,
      value_handle_id = 0, value_handle_expr_set = []\<rparr>"

definition build0 :: "tree_code \<Rightarrow> tree \<Rightarrow> vn_state \<Rightarrow> tree \<times> vn_state" where
  "build0 code tt s = (Suc (length (nodes s)), s\<lparr>nodes := nodes s @ [make_node code tt]\<rparr>)"

text \<open>Modelled from the spec: \<^verbatim>\<open>get_tree_ann\<close> (tree-flow-inline.h) returns the annotation
  of a node and creates a common annotation when the node has none.\<close>

definition get_tree_ann :: "tree_node \<Rightarrow> tree_ann_d" where
  "get_tree_ann n =
     (case node_ann n of
        Some ann \<Rightarrow> ann
      | None \<Rightarrow> \<lparr>ann_type = TREE_ANN_COMMON, value_handle = NULL_TREE\<rparr>)"

definition tree_ann :: "tree_node \<Rightarrow> tree_ann_d option" where
  "tree_ann n = node_ann n"

subsection \<open>The functions of tree-vn.c\<close>

text \<open>Create and return a new value handle node of the given type:
  \<^verbatim>\<open>vh = build0 (VALUE_HANDLE, type); VALUE_HANDLE_ID (vh) = id++;\<close>\<close>

definition make_value_handle :: "tree \<Rightarrow> vn_state \<Rightarrow> tree \<times> vn_state" where
  "make_value_handle tt s =
     (let (vh, s1) = build0 VALUE_HANDLE tt s;
          s2 = store s1 vh ((node_at s1 vh)\<lparr>value_handle_id := id_static s1\<rparr>);
          s3 = s2\<lparr>id_static := id_static s2 + 1\<rparr>
      in (vh, s3))"

text \<open>The hash value of an expression from its code, its real operands
  (\<^verbatim>\<open>iterative_hash_expr\<close>) and its virtual operands, in their order.  The expression must
  be there and must not be a statement.\<close>

definition vn_compute ::
  "ir_provider \<Rightarrow> tree \<Rightarrow> hashval_t \<Rightarrow> vuse_optype \<Rightarrow> vn_state \<Rightarrow> abort + hashval_t" where
  "vn_compute c expr val vuses s =
     and_then (gcc_assert (expr \<noteq> NULL_TREE)) (\<lambda>_.
     and_then (deref s expr) (\<lambda>n.
     and_then (gcc_assert (case node_ann n of
                            None \<Rightarrow> True
                          | Some ann \<Rightarrow> ann_type ann \<noteq> STMT_ANN)) (\<lambda>_.
       Inr (fold (ir_iterative_hash_expr c) (vuse_ops vuses)
              (ir_iterative_hash_expr c expr val)))))"

text \<open>Two expressions are equal when they are one node, or when they have the same
  code, identical or compatible types, and equal operands.\<close>

definition expressions_equal_p :: "ir_provider \<Rightarrow> vn_state \<Rightarrow> tree \<Rightarrow> tree \<Rightarrow> abort + bool" where
  "expressions_equal_p c s e1 e2 =
     (if e1 = e2 then Inr True
      else and_then (deref s e1) (\<lambda>n1.
           and_then (deref s e2) (\<lambda>n2.
             let te1 = node_type n1; te2 = node_type n2
             in if node_code n1 = node_code n2
                   \<and> (te1 = te2 \<or> ir_types_compatible_p c te1 te2)
                   \<and> ir_operand_equal_p c e1 e2
                then Inr True
                else Inr False)))"

definition val_expr_pair_hash :: "val_expr_pair \<Rightarrow> hashval_t" where
  "val_expr_pair_hash ve = pair_hashcode ve"

text \<open>The equality of two table entries: equal expressions, as many virtual uses, and
  the virtual uses equal position by position.  \<open>vuse_ops_equal\<close> is the loop over the
  positions of the first entry; reading past the end of the second is out of bounds (it
  does not happen after the comparison of the lengths).\<close>

fun vuse_ops_equal :: "ir_provider \<Rightarrow> vn_state \<Rightarrow> tree list \<Rightarrow> tree list \<Rightarrow> abort + bool" where
  "vuse_ops_equal c s [] ops2 = Inr True"
| "vuse_ops_equal c s (u1 # ops1) [] = Inl SEGV"
| "vuse_ops_equal c s (u1 # ops1) (u2 # ops2) =
     and_then (expressions_equal_p c s u1 u2) (\<lambda>b.
       if \<not> b then Inr False else vuse_ops_equal c s ops1 ops2)"

definition val_expr_pair_expr_eq ::
  "ir_provider \<Rightarrow> vn_state \<Rightarrow> val_expr_pair \<Rightarrow> val_expr_pair \<Rightarrow> abort + bool" where
  "val_expr_pair_expr_eq c s ve1 ve2 =
     and_then (expressions_equal_p c s (pair_e ve1) (pair_e ve2)) (\<lambda>b.
       if \<not> b then Inr False
       else if NUM_VUSES (pair_vuses ve1) \<noteq> NUM_VUSES (pair_vuses ve2) then Inr False
       else vuse_ops_equal c s (vuse_ops (pair_vuses ve1)) (vuse_ops (pair_vuses ve2)))"

text \<open>Modelled from the spec: the hash table of libiberty (hashtab.c) is not among the
  sources.  The table is the sequence of its slots, \<open>None\<close> an empty one.  An entry is
  looked for in the bucket of the given hash code (the entries whose own hash code,
  \<open>val_expr_pair_hash\<close>, is that code) with the equality registered by \<open>vn_init\<close>,
  \<open>val_expr_pair_expr_eq\<close>, applied to the entry and the searched element; the first
  equal entry is the one found.  With \<open>INSERT\<close> a search that finds none returns a new
  empty slot.\<close>

fun htab_probe ::
  "(val_expr_pair \<Rightarrow> abort + bool) \<Rightarrow> hashval_t \<Rightarrow> htab \<Rightarrow> abort + nat option" where
  "htab_probe eq_f hash [] = Inr None"
| "htab_probe eq_f hash (None # slots) =
     and_then (htab_probe eq_f hash slots) (\<lambda>r. Inr (map_option Suc r))"
| "htab_probe eq_f hash (Some entry # slots) =
     (if val_expr_pair_hash entry = hash
      then and_then (eq_f entry) (\<lambda>b.
             if b then Inr (Some 0)
             else and_then (htab_probe eq_f hash slots) (\<lambda>r. Inr (map_option Suc r)))
      else and_then (htab_probe eq_f hash slots) (\<lambda>r. Inr (map_option Suc r)))"

definition htab_find_slot_with_hash ::
  "ir_provider \<Rightarrow> vn_state \<Rightarrow> htab option \<Rightarrow> val_expr_pair \<Rightarrow> hashval_t \<Rightarrow> insert_option
     \<Rightarrow> abort + (nat option \<times> htab)" where
  "htab_find_slot_with_hash c s table element hash ins =
     (case table of
        None \<Rightarrow> Inl SEGV
      | Some slots \<Rightarrow>
          and_then (htab_probe (\<lambda>entry. val_expr_pair_expr_eq c s entry element) hash slots)
            (\<lambda>r. case r of
                   Some i \<Rightarrow> Inr (Some i, slots)
                 | None \<Rightarrow>
                     (case ins of
                        NO_INSERT \<Rightarrow> Inr (None, slots)
                      | INSERT \<Rightarrow> Inr (Some (length slots), slots @ [None]))))"

text \<open>Set the value handle of an expression: in the name itself for an SSA name, in the
  annotation for an expression or a declaration; a constant is its own value handle and
  any other node fails the assertion.\<close>

definition set_value_handle :: "ir_provider \<Rightarrow> tree \<Rightarrow> tree \<Rightarrow> vn_state \<Rightarrow> abort + vn_state" where
  "set_value_handle c e v s =
     and_then (deref s e) (\<lambda>n.
       if node_code n = SSA_NAME then Inr (store s e (n\<lparr>ssa_name_value := v\<rparr>))
       else if EXPR_P n \<or> DECL_P n
       then Inr (store s e (n\<lparr>node_ann := Some ((get_tree_ann n)\<lparr>value_handle := v\<rparr>)\<rparr>))
       else and_then (is_gimple_min_invariant c s e) (\<lambda>inv.
            and_then (gcc_assert inv) (\<lambda>_. Inr s)))"

text \<open>Modelled from the spec: \<^verbatim>\<open>add_to_value\<close> (tree-ssa-pre.c) is not among the sources
  and the specification does not describe it.  By the comment of \<open>vn_add\<close> it adds the
  expression to the value set of the value; a constant value has no set.\<close>

definition add_to_value :: "ir_provider \<Rightarrow> tree \<Rightarrow> tree \<Rightarrow> vn_state \<Rightarrow> abort + vn_state" where
  "add_to_value c v e s =
     and_then (is_gimple_min_invariant c s v) (\<lambda>inv.
       if inv then Inr s
       else and_then (deref s v) (\<lambda>n.
              Inr (store s v (n\<lparr>value_handle_expr_set := value_handle_expr_set n @ [e]\<rparr>))))"

text \<open>Insert the expression into the table with the given value: a new pair goes into
  the slot found for it, where it replaces the pair that was there (which is freed);
  then the handle of the expression is set and the expression is added to the value.\<close>

definition vn_add ::
  "ir_provider \<Rightarrow> tree \<Rightarrow> tree \<Rightarrow> vuse_optype \<Rightarrow> vn_state \<Rightarrow> abort + vn_state" where
  "vn_add c expr val vuses s =
     and_then (vn_compute c expr 0 vuses s) (\<lambda>h.
       let new_pair = \<lparr>pair_v = val, pair_e = expr, pair_vuses = vuses, pair_hashcode = h\<rparr>
       in and_then (htab_find_slot_with_hash c s (value_table s) new_pair h INSERT)
            (\<lambda>(slot, slots).
               case slot of
                 None \<Rightarrow> Inl SEGV
               | Some i \<Rightarrow>
                   and_then (set_value_handle c expr val
                               (s\<lparr>value_table := Some (slots[i := Some new_pair])\<rparr>))
                     (\<lambda>s1. add_to_value c val expr s1)))"

text \<open>Search the table for the expression and return its value, or \<open>NULL_TREE\<close> when
  there is none.  Constants are their own value.\<close>

definition vn_lookup ::
  "ir_provider \<Rightarrow> tree \<Rightarrow> vuse_optype \<Rightarrow> vn_state \<Rightarrow> abort + (tree \<times> vn_state)" where
  "vn_lookup c expr vuses s =
     and_then (is_gimple_min_invariant c s expr) (\<lambda>inv.
       if inv then Inr (expr, s)
       else and_then (vn_compute c expr 0 vuses s) (\<lambda>h.
         let vep = \<lparr>pair_v = NULL_TREE, pair_e = expr, pair_vuses = vuses, pair_hashcode = h\<rparr>
         in and_then (htab_find_slot_with_hash c s (value_table s) vep h NO_INSERT)
              (\<lambda>(slot, slots).
                 let s1 = s\<lparr>value_table := Some slots\<rparr>
                 in case slot of
                      None \<Rightarrow> Inr (NULL_TREE, s1)
                    | Some i \<Rightarrow>
                        (if i < length slots
                         then (case slots ! i of
                                 None \<Rightarrow> Inl SEGV
                               | Some entry \<Rightarrow> Inr (pair_v entry, s1))
                         else Inl SEGV))))"

text \<open>Like \<open>vn_lookup\<close>, but a new value handle is made and added for an expression
  that has none.  The handle of the expression is set in either case.  (The lines written
  to the dump file are not modelled.)\<close>

definition vn_lookup_or_add ::
  "ir_provider \<Rightarrow> tree \<Rightarrow> vuse_optype \<Rightarrow> vn_state \<Rightarrow> abort + (tree \<times> vn_state)" where
  "vn_lookup_or_add c expr vuses s =
     and_then (vn_lookup c expr vuses s) (\<lambda>(v, s1).
     and_then (if v = NULL_TREE
               then and_then (deref s1 expr) (\<lambda>n.
                      let (v', s2) = make_value_handle (node_type n) s1
                      in and_then (vn_add c expr v' vuses s2) (\<lambda>s3. Inr (v', s3)))
               else Inr (v, s1)) (\<lambda>(v, s4).
     and_then (set_value_handle c expr v s4) (\<lambda>s5. Inr (v, s5))))"

text \<open>The value handle of a node: the node itself for a constant, else what the node
  records, \<open>NULL_TREE\<close> when it has no annotation.\<close>

definition get_value_handle :: "ir_provider \<Rightarrow> tree \<Rightarrow> vn_state \<Rightarrow> abort + tree" where
  "get_value_handle c expr s =
     and_then (is_gimple_min_invariant c s expr) (\<lambda>inv.
       if inv then Inr expr
       else and_then (deref s expr) (\<lambda>n.
              if node_code n = SSA_NAME then Inr (ssa_name_value n)
              else if EXPR_P n \<or> DECL_P n
              then (case tree_ann n of
                      Some ann \<Rightarrow> Inr (value_handle ann)
                    | None \<Rightarrow> Inr NULL_TREE)
              else Inl UNREACHABLE))"

text \<open>\<open>vn_init\<close> creates an empty table (\<^verbatim>\<open>htab_create\<close> with \<open>val_expr_pair_hash\<close> and
  \<open>val_expr_pair_expr_eq\<close>); \<open>vn_delete\<close> deletes the table, which dereferences it, and
  clears the pointer.  Neither touches the counter of handle ids.\<close>

definition vn_init :: "vn_state \<Rightarrow> vn_state" where
  "vn_init s = s\<lparr>value_table := Some []\<rparr>"

definition vn_delete :: "vn_state \<Rightarrow> abort + vn_state" where
  "vn_delete s =
     (case value_table s of
        None \<Rightarrow> Inl SEGV
      | Some slots \<Rightarrow> Inr (s\<lparr>value_table := None\<rparr>))"

subsection \<open>Notions used in the statements\<close>

text \<open>A statement is recognised by its annotation, as \<open>vn_compute\<close> does.\<close>

definition stmt_annotated :: "tree_node \<Rightarrow> bool" where
  "stmt_annotated n \<longleftrightarrow> (case node_ann n of None \<Rightarrow> False | Some ann \<Rightarrow> ann_type ann = STMT_ANN)"

text \<open>A later state extends an earlier one: the nodes of the earlier state are still
  there, with their kind, their type, their handle id and the kind of their annotation.\<close>

definition extends :: "vn_state \<Rightarrow> vn_state \<Rightarrow> bool" where
  "extends s s' \<longleftrightarrow>
     length (nodes s) \<le> length (nodes s') \<and>
     (\<forall>i<length (nodes s).
        node_code (nodes s' ! i) = node_code (nodes s ! i) \<and>
        node_type (nodes s' ! i) = node_type (nodes s ! i) \<and>
        value_handle_id (nodes s' ! i) = value_handle_id (nodes s ! i) \<and>
        stmt_annotated (nodes s' ! i) = stmt_annotated (nodes s ! i))"

text \<open>The hash code and the table entry that \<open>vn_add\<close> and \<open>vn_lookup\<close> compute for
  an expression and its virtual uses, and the nodes whose handle \<open>set_value_handle\<close>
  accepts to set.\<close>

definition vn_hash :: "ir_provider \<Rightarrow> tree \<Rightarrow> vuse_optype \<Rightarrow> hashval_t" where
  "vn_hash c expr vuses =
     fold (ir_iterative_hash_expr c) (vuse_ops vuses) (ir_iterative_hash_expr c expr 0)"

definition vn_key :: "ir_provider \<Rightarrow> tree \<Rightarrow> tree \<Rightarrow> vuse_optype \<Rightarrow> val_expr_pair" where
  "vn_key c val expr vuses =
     \<lparr>pair_v = val, pair_e = expr, pair_vuses = vuses, pair_hashcode = vn_hash c expr vuses\<rparr>"

definition handle_settable :: "ir_provider \<Rightarrow> vn_state \<Rightarrow> tree \<Rightarrow> bool" where
  "handle_settable c s e \<longleftrightarrow>
     node_code (node_at s e) = SSA_NAME \<or> EXPR_P (node_at s e) \<or> DECL_P (node_at s e)
       \<or> ir_is_gimple_min_invariant c e"

text \<open>Handles created one after the other, as successive calls of \<open>vn_lookup_or_add\<close>
  that find nothing create them, and the ids they carry afterwards.\<close>

fun make_value_handles :: "tree list \<Rightarrow> vn_state \<Rightarrow> tree list \<times> vn_state" where
  "make_value_handles [] s = ([], s)"
| "make_value_handles (tt # tts) s =
     (let (vh, s1) = make_value_handle tt s;
          (vhs, s2) = make_value_handles tts s1
      in (vh # vhs, s2))"

definition VALUE_HANDLE_ID :: "vn_state \<Rightarrow> tree \<Rightarrow> 32 word" where
  "VALUE_HANDLE_ID s vh = value_handle_id (node_at s vh)"

definition created_ids :: "tree list \<Rightarrow> vn_state \<Rightarrow> 32 word list" where
  "created_ids tts s = (let (vhs, s') = make_value_handles tts s in map (VALUE_HANDLE_ID s') vhs)"

text \<open>The contract of a hash table on the collaborators: the type-compatibility oracle
  and the operand comparison are symmetric and transitive, and expressions that
  \<open>expressions_equal_p\<close> takes for equal hash equally.\<close>

definition lawful :: "ir_provider \<Rightarrow> bool" where
  "lawful c \<longleftrightarrow>
     (\<forall>t1 t2. ir_types_compatible_p c t1 t2 \<longrightarrow> ir_types_compatible_p c t2 t1) \<and>
     (\<forall>t1 t2 t3. ir_types_compatible_p c t1 t2 \<longrightarrow> ir_types_compatible_p c t2 t3 \<longrightarrow>
        ir_types_compatible_p c t1 t3) \<and>
     (\<forall>e1 e2. ir_operand_equal_p c e1 e2 \<longrightarrow> ir_operand_equal_p c e2 e1) \<and>
     (\<forall>e1 e2 e3. ir_operand_equal_p c e1 e2 \<longrightarrow> ir_operand_equal_p c e2 e3 \<longrightarrow>
        ir_operand_equal_p c e1 e3)"

definition hash_respects :: "ir_provider \<Rightarrow> vn_state \<Rightarrow> bool" where
  "hash_respects c s \<longleftrightarrow>
     (\<forall>e1 e2 val. expressions_equal_p c s e1 e2 = Inr True \<longrightarrow>
        ir_iterative_hash_expr c e1 val = ir_iterative_hash_expr c e2 val)"

text \<open>The handles in the table are nodes that exist (or \<open>NULL_TREE\<close>).\<close>

definition handles_live :: "vn_state \<Rightarrow> bool" where
  "handles_live s \<longleftrightarrow>
     (\<forall>tab p. value_table s = Some tab \<longrightarrow> Some p \<in> set tab \<longrightarrow> pair_v p \<le> length (nodes s))"

text \<open>Two sets of virtual uses differ, for the comparison of \<open>val_expr_pair_expr_eq\<close>:
  they have different lengths, or the comparison of their operands, position by position,
  meets two operands that are not equal.\<close>

definition vuses_differ :: "ir_provider \<Rightarrow> vn_state \<Rightarrow> vuse_optype \<Rightarrow> vuse_optype \<Rightarrow> bool" where
  "vuses_differ c s d1 d2 \<longleftrightarrow>
     NUM_VUSES d1 \<noteq> NUM_VUSES d2 \<or>
     vuse_ops_equal c s (vuse_ops d1) (vuse_ops d2) = Inr False"

text \<open>Two calls of \<open>vn_lookup_or_add\<close> in a row, and the two handles they return.\<close>

definition lookup_or_add_twice ::
  "ir_provider \<Rightarrow> tree \<Rightarrow> vuse_optype \<Rightarrow> tree \<Rightarrow> vuse_optype \<Rightarrow> vn_state
     \<Rightarrow> abort + (tree \<times> tree)" where
  "lookup_or_add_twice c e1 d1 e2 d2 s =
     and_then (vn_lookup_or_add c e1 d1 s) (\<lambda>(h1, s1).
     and_then (vn_lookup_or_add c e2 d2 s1) (\<lambda>(h2, s2). Inr (h1, h2)))"

text \<open>A session: the calls a client makes, one after the other, results dropped; it
  stops at the first abort.  The nodes created between two states are the addresses from
  the end of the first heap to the end of the second, in creation order.\<close>

datatype vn_call =
    VN_INIT
  | VN_DELETE
  | VN_LOOKUP tree vuse_optype
  | VN_ADD tree tree vuse_optype
  | VN_LOOKUP_OR_ADD tree vuse_optype
  | GET_VALUE_HANDLE tree

fun vn_do :: "ir_provider \<Rightarrow> vn_call \<Rightarrow> vn_state \<Rightarrow> abort + vn_state" where
  "vn_do c VN_INIT s = Inr (vn_init s)"
| "vn_do c VN_DELETE s = vn_delete s"
| "vn_do c (VN_LOOKUP expr vuses) s = and_then (vn_lookup c expr vuses s) (\<lambda>(v, s'). Inr s')"
| "vn_do c (VN_ADD expr val vuses) s = vn_add c expr val vuses s"
| "vn_do c (VN_LOOKUP_OR_ADD expr vuses) s =
     and_then (vn_lookup_or_add c expr vuses s) (\<lambda>(v, s'). Inr s')"
| "vn_do c (GET_VALUE_HANDLE expr) s = and_then (get_value_handle c expr s) (\<lambda>v. Inr s)"

fun vn_session :: "ir_provider \<Rightarrow> vn_call list \<Rightarrow> vn_state \<Rightarrow> abort + vn_state" where
  "vn_session c [] s = Inr s"
| "vn_session c (call # calls) s = and_then (vn_do c call s) (vn_session c calls)"

definition created_between :: "vn_state \<Rightarrow> vn_state \<Rightarrow> tree list" where
  "created_between s s' =
     map (\<lambda>k. Suc (length (nodes s) + k)) [0..<length (nodes s') - length (nodes s)]"

text \<open>No handle is recorded in two entries of the table.\<close>

definition handles_unshared :: "vn_state \<Rightarrow> bool" where
  "handles_unshared s \<longleftrightarrow>
     (\<forall>tab i j p q. value_table s = Some tab \<longrightarrow> i < j \<longrightarrow> j < length tab \<longrightarrow>
        tab ! i = Some p \<longrightarrow> tab ! j = Some q \<longrightarrow> pair_v p \<noteq> pair_v q)"

text \<open>Every entry of the table carries the hash code of its own key, as the entries that
  \<open>vn_add\<close> writes do; and the table holds at most one entry per key: no two of its
  entries compare equal for \<open>val_expr_pair_expr_eq\<close>.\<close>

definition table_keyed :: "ir_provider \<Rightarrow> vn_state \<Rightarrow> bool" where
  "table_keyed c s \<longleftrightarrow>
     (\<forall>tab i p. value_table s = Some tab \<longrightarrow> i < length tab \<longrightarrow> tab ! i = Some p \<longrightarrow>
        pair_hashcode p = vn_hash c (pair_e p) (pair_vuses p))"

definition one_entry_per_key :: "ir_provider \<Rightarrow> vn_state \<Rightarrow> bool" where
  "one_entry_per_key c s \<longleftrightarrow>
     (\<forall>tab i j p q. value_table s = Some tab \<longrightarrow> i < length tab \<longrightarrow> j < length tab \<longrightarrow>
        i \<noteq> j \<longrightarrow> tab ! i = Some p \<longrightarrow> tab ! j = Some q \<longrightarrow>
        val_expr_pair_expr_eq c s p q \<noteq> Inr True)"

subsection \<open>A small program\<close>

text \<open>
  The nodes of a small function body, used to run the definitions: the type \<open>int\<close> (1),
  the names \<open>a\<close> (2) and \<open>b\<close> (3), the sum \<open>a + b\<close> (4) and a second node for the
  same sum (5), the constant 5 (6), two memory tokens (7, 8), an assignment statement (9),
  a value handle built by a client (10), two nodes of one real constant (11, 12), a
  list node (13) and a second value handle built by a client (14).  The collaborators
  compare types by identity, take the two sums and the two real constants for equal
  operands, and hash accordingly; the hash does not tell the two memory tokens apart.
\<close>

definition ex_nodes :: "tree_node list" where
  "ex_nodes =
     [make_node INTEGER_TYPE 0,
      make_node SSA_NAME 1,
      make_node SSA_NAME 1,
      make_node PLUS_EXPR 1,
      make_node PLUS_EXPR 1,
      make_node INTEGER_CST 1,
      make_node SSA_NAME 1,
      make_node SSA_NAME 1,
      (make_node MODIFY_EXPR 1)\<lparr>node_ann := Some \<lparr>ann_type = STMT_ANN, value_handle = 0\<rparr>\<rparr>,
      make_node VALUE_HANDLE 1,
      make_node REAL_CST 1,
      make_node REAL_CST 1,
      make_node TREE_LIST 0,
      make_node VALUE_HANDLE 1]"

definition ex_state :: vn_state where
  "ex_state = \<lparr>nodes = ex_nodes, value_table = Some [], id_static = 0\<rparr>"

definition ex_rep :: "tree \<Rightarrow> tree" where
  "ex_rep t = (if t = 5 then 4 else if t = 12 then 11 else t)"

definition ex_ir :: ir_provider where
  "ex_ir =
     \<lparr>ir_is_gimple_min_invariant = (\<lambda>t. t = 6 \<or> t = 11 \<or> t = 12),
      ir_types_compatible_p = (\<lambda>t1 t2. t1 = t2),
      ir_operand_equal_p = (\<lambda>e1 e2. ex_rep e1 = ex_rep e2),
      ir_iterative_hash_expr =
        (\<lambda>t val. 3 * val + of_nat (if t = 8 then 7 else ex_rep t))\<rparr>"

text \<open>The state after \<open>a + b\<close> has been given a value; the state after that session has
  been torn down; and a state whose table holds, after an empty slot, an entry for
  \<open>a + b\<close> under the first memory token.\<close>

definition ex_state1 :: vn_state where
  "ex_state1 =
     (case vn_lookup_or_add ex_ir 4 None ex_state of Inr (h, s) \<Rightarrow> s | Inl a \<Rightarrow> ex_state)"

definition ex_session :: "abort + vn_state" where
  "ex_session = and_then (vn_lookup_or_add ex_ir 4 None ex_state) (\<lambda>(h, s1). vn_delete s1)"

definition ex_closed :: vn_state where
  "ex_closed = (case ex_session of Inr s \<Rightarrow> s | Inl a \<Rightarrow> ex_state)"

definition ex_state_m1 :: vn_state where
  "ex_state_m1 = ex_state\<lparr>value_table := Some [None, Some (vn_key ex_ir 10 4 (Some [7]))]\<rparr>"

text \<open>The small program when the counter of handle ids has reached its last value.\<close>

definition ex_wrap :: vn_state where
  "ex_wrap = ex_state\<lparr>id_static := 0xFFFFFFFF\<rparr>"

text \<open>The small program after a client has given \<open>a + b\<close> the same value under the
  first and under the second memory token.\<close>

definition ex_shared :: vn_state where
  "ex_shared =
     (case and_then (vn_add ex_ir 4 10 (Some [7]) ex_state) (vn_add ex_ir 4 10 (Some [8])) of
        Inr s \<Rightarrow> s
      | Inl a \<Rightarrow> ex_state)"

text \<open>
  A second program: three pointer types, to an array of three (1), to an array of four (2)
  and to an array of unknown size (3), and three conversions of one pointer, one to each
  type (4, 5, 6).  The type-compatibility oracle is the one of C, where the type of
  unknown size is compatible with both others and these are not compatible with each
  other; the operand comparison looks through the conversions.  In \<open>ex2_state\<close> the
  first conversion has been given a value.
\<close>

definition ex2_nodes :: "tree_node list" where
  "ex2_nodes =
     [make_node POINTER_TYPE 0, make_node POINTER_TYPE 0, make_node POINTER_TYPE 0,
      make_node NOP_EXPR 1, make_node NOP_EXPR 2, make_node NOP_EXPR 3]"

definition ex2_ir :: ir_provider where
  "ex2_ir =
     \<lparr>ir_is_gimple_min_invariant = (\<lambda>t. False),
      ir_types_compatible_p = (\<lambda>t1 t2. t1 = 3 \<or> t2 = 3),
      ir_operand_equal_p = (\<lambda>e1 e2. True),
      ir_iterative_hash_expr = (\<lambda>t val. val)\<rparr>"

definition ex2_state :: vn_state where
  "ex2_state =
     (case vn_lookup_or_add ex2_ir 4 None
             \<lparr>nodes = ex2_nodes, value_table = Some [], id_static = 0\<rparr> of
        Inr (h, s) \<Rightarrow> s
      | Inl a \<Rightarrow> \<lparr>nodes = ex2_nodes, value_table = Some [], id_static = 0\<rparr>)"

text \<open>Two sessions on the small program.\<close>

definition ex_calls :: "vn_call list" where
  "ex_calls =
     [VN_LOOKUP_OR_ADD 4 None, VN_LOOKUP 5 (Some [7]), VN_LOOKUP_OR_ADD 5 (Some [7]),
      VN_ADD 2 10 None, VN_LOOKUP_OR_ADD 5 None, GET_VALUE_HANDLE 5,
      VN_LOOKUP_OR_ADD 3 None]"

definition ex_wrap_calls :: "vn_call list" where
  "ex_wrap_calls = [VN_LOOKUP_OR_ADD 4 None, VN_LOOKUP_OR_ADD 3 None]"

text \<open>
  More states of the two programs.  In \<open>ex_two\<close> the sum has been given a value under
  each of the two memory tokens, by two calls of \<open>vn_lookup_or_add\<close>.  In
  \<open>ex_dangling\<close> the table records, for the copy of the sum under the second token, a
  handle that is not a node yet.
\<close>

definition ex_two :: vn_state where
  "ex_two =
     (case and_then (vn_lookup_or_add ex_ir 4 (Some [7]) ex_state)
             (\<lambda>(h, s). vn_lookup_or_add ex_ir 4 (Some [8]) s) of
        Inr (h, s) \<Rightarrow> s
      | Inl a \<Rightarrow> ex_state)"

definition ex_dangling :: vn_state where
  "ex_dangling = ex_state \<lparr>value_table := Some [Some (vn_key ex_ir 15 5 (Some [8]))]\<rparr>"

text \<open>
  In \<open>ex2_mem\<close> the first conversion has a value under a virtual use that is the third
  conversion (the file compares virtual uses the way it compares expressions).  In
  \<open>ex2_before\<close> the first two conversions have been given values, and \<open>ex2_after\<close>
  is that state after two calls of \<open>vn_add\<close> for the third conversion.
\<close>

definition ex2_base :: vn_state where
  "ex2_base = \<lparr>nodes = ex2_nodes, value_table = Some [], id_static = 0\<rparr>"

definition ex2_mem :: vn_state where
  "ex2_mem =
     (case vn_lookup_or_add ex2_ir 4 (Some [6]) ex2_base of
        Inr (h, s) \<Rightarrow> s
      | Inl a \<Rightarrow> ex2_base)"

definition ex2_before :: vn_state where
  "ex2_before =
     (case vn_session ex2_ir [VN_LOOKUP_OR_ADD 4 None, VN_LOOKUP_OR_ADD 5 None] ex2_base of
        Inr s \<Rightarrow> s
      | Inl a \<Rightarrow> ex2_base)"

definition ex2_after :: vn_state where
  "ex2_after =
     (case vn_session ex2_ir [VN_ADD 6 8 None, VN_ADD 6 7 None] ex2_before of
        Inr s \<Rightarrow> s
      | Inl a \<Rightarrow> ex2_base)"


section \<open>Facts about the functions\<close>

subsection \<open>Aborts, the heap and the collaborators\<close>

lemma and_then_Inr [simp]: "and_then (Inr x) f = f x"
  by (simp add: and_then_def)

lemma and_then_Inl [simp]: "and_then (Inl a) f = Inl a"
  by (simp add: and_then_def)

lemma and_then_eq_Inr: "and_then m f = Inr y \<longleftrightarrow> (\<exists>x. m = Inr x \<and> f x = Inr y)"
  by (cases m) simp_all

lemma gcc_assert_simps [simp]: "gcc_assert True = Inr ()" "gcc_assert False = Inl ASSERT_FAILED"
  by (simp_all add: gcc_assert_def)

lemma deref_valid: "valid_tree s t \<Longrightarrow> deref s t = Inr (node_at s t)"
  by (simp add: deref_def)

lemma deref_eq_Inr: "deref s t = Inr n \<longleftrightarrow> valid_tree s t \<and> n = node_at s t"
  by (auto simp: deref_def)

lemma valid_not_NULL: "valid_tree s t \<Longrightarrow> t \<noteq> NULL_TREE"
  by (simp add: valid_tree_def NULL_TREE_def)

lemma is_gimple_min_invariant_valid:
  "valid_tree s t \<Longrightarrow> is_gimple_min_invariant c s t = Inr (ir_is_gimple_min_invariant c t)"
  by (simp add: is_gimple_min_invariant_def deref_valid)

lemma is_gimple_min_invariant_eq_Inr:
  "is_gimple_min_invariant c s t = Inr b \<longleftrightarrow> valid_tree s t \<and> b = ir_is_gimple_min_invariant c t"
  by (auto simp: is_gimple_min_invariant_def deref_def)

lemma vn_compute_stmt:
  "valid_tree s expr \<Longrightarrow> stmt_annotated (node_at s expr) \<Longrightarrow>
   vn_compute c expr val vuses s = Inl ASSERT_FAILED"
  by (simp add: vn_compute_def deref_valid stmt_annotated_def valid_not_NULL split: option.splits)

lemma vn_compute_ok:
  "valid_tree s expr \<Longrightarrow> \<not> stmt_annotated (node_at s expr) \<Longrightarrow>
   vn_compute c expr val vuses s =
     Inr (fold (ir_iterative_hash_expr c) (vuse_ops vuses) (ir_iterative_hash_expr c expr val))"
  by (simp add: vn_compute_def deref_valid stmt_annotated_def valid_not_NULL split: option.splits)

lemma vn_compute_eq_Inr:
  "vn_compute c expr val vuses s = Inr h \<longleftrightarrow>
     valid_tree s expr \<and> \<not> stmt_annotated (node_at s expr) \<and>
     h = fold (ir_iterative_hash_expr c) (vuse_ops vuses) (ir_iterative_hash_expr c expr val)"
  apply (cases "valid_tree s expr")
   apply (cases "stmt_annotated (node_at s expr)")
    apply (auto simp: vn_compute_stmt vn_compute_ok)[2]
  apply (auto simp: vn_compute_def deref_def gcc_assert_def and_then_def split: if_splits sum.splits)
  done

(* store frame *)
lemma valid_tree_store [simp]: "valid_tree (store s t n) u = valid_tree s u"
  by (simp add: valid_tree_def store_def)

lemma nodes_store_same: "valid_tree s t \<Longrightarrow> node_at (store s t n) t = n"
proof -
  assume "valid_tree s t"
  then have "t - 1 < length (nodes s)"
    by (auto simp: valid_tree_def)
  then show ?thesis
    by (simp add: store_def node_at_def)
qed

lemma nodes_store_other:
  assumes "t \<noteq> u" and "valid_tree s t" and "valid_tree s u"
  shows "node_at (store s t n) u = node_at s u"
proof -
  have "t - 1 \<noteq> u - 1"
    using assms by (auto simp: valid_tree_def)
  then show ?thesis
    by (simp add: store_def node_at_def)
qed

lemma store_fields [simp]:
  "value_table (store s t n) = value_table s"
  "id_static (store s t n) = id_static s"
  "length (nodes (store s t n)) = length (nodes s)"
  by (simp_all add: store_def)

lemma set_value_handle_frame:
  "set_value_handle c e v s = Inr s' \<Longrightarrow>
     value_table s' = value_table s \<and> id_static s' = id_static s \<and>
     length (nodes s') = length (nodes s)"
  by (auto simp: set_value_handle_def and_then_eq_Inr split: if_splits)

lemma set_value_handle_total:
  "valid_tree s e \<Longrightarrow>
   node_code (node_at s e) = SSA_NAME \<or> EXPR_P (node_at s e) \<or> DECL_P (node_at s e)
     \<or> ir_is_gimple_min_invariant c e \<Longrightarrow>
   \<exists>s'. set_value_handle c e v s = Inr s'"
  by (auto simp: set_value_handle_def deref_valid is_gimple_min_invariant_valid)

lemma vn_lookup_constant:
  "valid_tree s e \<Longrightarrow> ir_is_gimple_min_invariant c e \<Longrightarrow> vn_lookup c e vuses s = Inr (e, s)"
  by (simp add: vn_lookup_def is_gimple_min_invariant_valid)

subsection \<open>The search of the table\<close>

lemma htab_probe_Some:
  "htab_probe eq_f h slots = Inr (Some i) \<Longrightarrow>
     i < length slots \<and>
     (\<exists>p. slots ! i = Some p \<and> val_expr_pair_hash p = h \<and> eq_f p = Inr True) \<and>
     (\<forall>j<i. \<forall>q. slots ! j = Some q \<longrightarrow> val_expr_pair_hash q = h \<longrightarrow> eq_f q = Inr False)"
proof (induction eq_f h slots arbitrary: i rule: htab_probe.induct)
  case (1 eq_f hash)
  then show ?case by simp
next
  case (2 eq_f hash slots)
  from "2.prems" obtain k where k: "htab_probe eq_f hash slots = Inr (Some k)" "i = Suc k"
    by (auto simp: and_then_eq_Inr)
  from "2.IH" [OF k(1)] k(2) show ?case
    by (auto simp: less_Suc_eq_0_disj)
next
  case (3 eq_f hash entry slots)
  show ?case
  proof (cases "val_expr_pair_hash entry = hash \<and> eq_f entry = Inr True")
    case True
    with "3.prems" show ?thesis by auto
  next
    case False
    with "3.prems" obtain k where k: "htab_probe eq_f hash slots = Inr (Some k)" "i = Suc k"
      and f: "val_expr_pair_hash entry = hash \<longrightarrow> eq_f entry = Inr False"
      by (auto simp: and_then_eq_Inr split: if_splits)
    have "k < length slots \<and>
     (\<exists>p. slots ! k = Some p \<and> val_expr_pair_hash p = hash \<and> eq_f p = Inr True) \<and>
     (\<forall>j<k. \<forall>q. slots ! j = Some q \<longrightarrow> val_expr_pair_hash q = hash \<longrightarrow> eq_f q = Inr False)"
      using "3.IH" False k(1) "3.prems" by (auto simp: and_then_eq_Inr split: if_splits)
    with k(2) f show ?thesis
      by (auto simp: less_Suc_eq_0_disj)
  qed
qed

lemma htab_probe_None:
  "htab_probe eq_f h slots = Inr None \<Longrightarrow>
     (\<forall>q. Some q \<in> set slots \<longrightarrow> val_expr_pair_hash q = h \<longrightarrow> eq_f q = Inr False)"
  by (induction eq_f h slots rule: htab_probe.induct)
     (auto simp: and_then_eq_Inr split: if_splits)

lemma htab_probe_cong:
  assumes "htab_probe eq1 h slots = Inr r"
    and "\<And>p b. Some p \<in> set slots \<Longrightarrow> val_expr_pair_hash p = h \<Longrightarrow> eq1 p = Inr b \<Longrightarrow> eq2 p = Inr b"
  shows "htab_probe eq2 h slots = Inr r"
  using assms
proof (induction eq1 h slots arbitrary: r rule: htab_probe.induct)
  case (1 eq_f hash)
  then show ?case by simp
next
  case (2 eq_f hash slots)
  then show ?case by (auto simp: and_then_eq_Inr)
next
  case (3 eq_f hash entry slots)
  show ?case
  proof (cases "val_expr_pair_hash entry = hash")
    case True
    with "3.prems"(1) obtain b where b: "eq_f entry = Inr b"
      by (auto simp: and_then_eq_Inr)
    then have b2: "eq2 entry = Inr b"
      using "3.prems"(2) True by simp
    show ?thesis
    proof (cases b)
      case True
      with b b2 "3.prems"(1) \<open>val_expr_pair_hash entry = hash\<close> show ?thesis by simp
    next
      case False
      with b "3.prems"(1) \<open>val_expr_pair_hash entry = hash\<close>
      obtain r' where r': "htab_probe eq_f hash slots = Inr r'" "r = map_option Suc r'"
        by (auto simp: and_then_eq_Inr)
      have "htab_probe eq2 hash slots = Inr r'"
        using "3.IH"(1) [of False r'] \<open>val_expr_pair_hash entry = hash\<close> r'(1) "3.prems"(2) by simp
      with r'(2) b2 False \<open>val_expr_pair_hash entry = hash\<close> show ?thesis by simp
    qed
  next
    case False
    with "3.prems"(1) obtain r' where r': "htab_probe eq_f hash slots = Inr r'" "r = map_option Suc r'"
      by (auto simp: and_then_eq_Inr)
    have "htab_probe eq2 hash slots = Inr r'"
      using "3.IH"(2) [OF False r'(1)] "3.prems"(2) by simp
    with r'(2) False show ?thesis by simp
  qed
qed

lemma htab_probe_snoc:
  assumes "htab_probe eq_f h xs = Inr None"
    and "val_expr_pair_hash p = h" and "eq_f p = Inr b"
  shows "htab_probe eq_f h (xs @ [Some p]) = Inr (if b then Some (length xs) else None)"
  using assms
proof (induction eq_f h xs rule: htab_probe.induct)
  case (1 eq_f hash)
  then show ?case by simp
next
  case (2 eq_f hash slots)
  from "2.prems"(1) have "htab_probe eq_f hash slots = Inr None"
    by (auto simp: and_then_eq_Inr)
  with "2.IH" "2.prems" show ?case by simp
next
  case (3 eq_f hash entry slots)
  show ?case
  proof (cases "val_expr_pair_hash entry = hash")
    case True
    with "3.prems"(1) have e: "eq_f entry = Inr False" and r: "htab_probe eq_f hash slots = Inr None"
      by (auto simp: and_then_eq_Inr split: if_splits)
    from "3.IH"(1) [of False] True r "3.prems"(2,3)
    have "htab_probe eq_f hash (slots @ [Some p]) = Inr (if b then Some (length slots) else None)"
      by simp
    with True e show ?thesis by simp
  next
    case False
    with "3.prems"(1) have r: "htab_probe eq_f hash slots = Inr None"
      by (auto simp: and_then_eq_Inr)
    from "3.IH"(2) [OF False r "3.prems"(2,3)] False show ?thesis by simp
  qed
qed

lemma htab_probe_update:
  assumes "htab_probe eq1 h slots = Inr (Some i)"
    and "\<And>q. Some q \<in> set slots \<Longrightarrow> val_expr_pair_hash q = h \<Longrightarrow> eq1 q = Inr False
           \<Longrightarrow> eq2 q = Inr False"
    and "val_expr_pair_hash new = h" and "eq2 new = Inr True"
  shows "htab_probe eq2 h (slots[i := Some new]) = Inr (Some i)"
  using assms
proof (induction eq1 h slots arbitrary: i rule: htab_probe.induct)
  case (1 eq_f hash)
  then show ?case by simp
next
  case (2 eq_f hash slots)
  from "2.prems"(1) obtain k where k: "htab_probe eq_f hash slots = Inr (Some k)" "i = Suc k"
    by (auto simp: and_then_eq_Inr)
  have "htab_probe eq2 hash (slots[k := Some new]) = Inr (Some k)"
    using "2.IH" [OF k(1)] "2.prems"(2,3,4) by simp
  with k(2) show ?case by simp
next
  case (3 eq_f hash entry slots)
  show ?case
  proof (cases "val_expr_pair_hash entry = hash \<and> eq_f entry = Inr True")
    case True
    with "3.prems"(1) have "i = 0" by simp
    with "3.prems"(3,4) show ?thesis by simp
  next
    case False
    with "3.prems"(1) obtain k where k: "htab_probe eq_f hash slots = Inr (Some k)" "i = Suc k"
      and f: "val_expr_pair_hash entry = hash \<longrightarrow> eq_f entry = Inr False"
      by (auto simp: and_then_eq_Inr split: if_splits)
    have ih: "htab_probe eq2 hash (slots[k := Some new]) = Inr (Some k)"
    proof (cases "val_expr_pair_hash entry = hash")
      case True
      then show ?thesis
        using "3.IH"(1) [of False k] k(1) "3.prems"(2,3,4) by simp
    next
      case False
      then show ?thesis
        using "3.IH"(2) [of k] k(1) "3.prems"(2,3,4) by simp
    qed
    have "val_expr_pair_hash entry = hash \<longrightarrow> eq2 entry = Inr False"
      using f "3.prems"(2) [of entry] by simp
    with ih k(2) show ?thesis by simp
  qed
qed

subsection \<open>States that extend a state\<close>

lemma extends_refl [simp]: "extends s s"
  by (simp add: extends_def)

lemma extends_trans: "extends s s1 \<Longrightarrow> extends s1 s2 \<Longrightarrow> extends s s2"
  by (auto simp: extends_def)

lemma extends_table [simp]: "extends s (s\<lparr>value_table := t\<rparr>)" "extends (s\<lparr>value_table := t\<rparr>) s"
  by (simp_all add: extends_def)

lemma extends_counter [simp]: "extends s (s\<lparr>id_static := k\<rparr>)"
  by (simp add: extends_def)

lemma extends_valid: "extends s s' \<Longrightarrow> valid_tree s t \<Longrightarrow> valid_tree s' t"
  by (auto simp: extends_def valid_tree_def)

lemma extends_code: "extends s s' \<Longrightarrow> valid_tree s t \<Longrightarrow>
    node_code (node_at s' t) = node_code (node_at s t)"
  by (auto simp: extends_def valid_tree_def node_at_def)

lemma extends_type: "extends s s' \<Longrightarrow> valid_tree s t \<Longrightarrow>
    node_type (node_at s' t) = node_type (node_at s t)"
  by (auto simp: extends_def valid_tree_def node_at_def)

lemma extends_id: "extends s s' \<Longrightarrow> valid_tree s t \<Longrightarrow>
    value_handle_id (node_at s' t) = value_handle_id (node_at s t)"
  by (auto simp: extends_def valid_tree_def node_at_def)

lemma extends_stmt: "extends s s' \<Longrightarrow> valid_tree s t \<Longrightarrow>
    stmt_annotated (node_at s' t) = stmt_annotated (node_at s t)"
  by (auto simp: extends_def valid_tree_def node_at_def)

lemma extends_store:
  assumes "valid_tree s t" "node_code n = node_code (node_at s t)"
    "node_type n = node_type (node_at s t)"
    "value_handle_id n = value_handle_id (node_at s t)"
    "stmt_annotated n = stmt_annotated (node_at s t)"
  shows "extends s (store s t n)"
  using assms
  by (auto simp: extends_def store_def valid_tree_def node_at_def nth_list_update
      split: if_splits)

lemma stmt_annotated_updates [simp]:
  "stmt_annotated (n\<lparr>ssa_name_value := v\<rparr>) = stmt_annotated n"
  "stmt_annotated (n\<lparr>value_handle_expr_set := xs\<rparr>) = stmt_annotated n"
  "stmt_annotated (n\<lparr>value_handle_id := k\<rparr>) = stmt_annotated n"
  "stmt_annotated (n\<lparr>node_ann := Some ((get_tree_ann n)\<lparr>value_handle := v\<rparr>)\<rparr>) = stmt_annotated n"
  by (simp_all add: stmt_annotated_def get_tree_ann_def split: option.splits)

lemma expressions_equal_p_extends:
  assumes "extends s s'" and "expressions_equal_p c s a b = Inr x"
  shows "expressions_equal_p c s' a b = Inr x"
proof (cases "a = b")
  case True
  with assms(2) show ?thesis by (simp add: expressions_equal_p_def)
next
  case False
  with assms(2) have v: "valid_tree s a" "valid_tree s b"
    by (auto simp: expressions_equal_p_def and_then_eq_Inr deref_eq_Inr)
  then have v': "valid_tree s' a" "valid_tree s' b"
    using assms(1) by (auto intro: extends_valid)
  show ?thesis
    using assms(2) False
    by (simp add: expressions_equal_p_def deref_valid v v'
        extends_code [OF assms(1)] extends_type [OF assms(1)])
qed

lemma vuse_ops_equal_extends:
  "extends s s' \<Longrightarrow> vuse_ops_equal c s xs ys = Inr x \<Longrightarrow> vuse_ops_equal c s' xs ys = Inr x"
proof (induction c s xs ys rule: vuse_ops_equal.induct)
  case (3 c s u1 ops1 u2 ops2)
  from "3.prems"(2) obtain b where b: "expressions_equal_p c s u1 u2 = Inr b"
    by (auto simp: and_then_eq_Inr)
  have b': "expressions_equal_p c s' u1 u2 = Inr b"
    using "3.prems"(1) b by (rule expressions_equal_p_extends)
  show ?case
    using "3.IH" [of b] "3.prems" b b' by (cases b) simp_all
qed simp_all

lemma val_expr_pair_expr_eq_extends:
  assumes "extends s s'" and "val_expr_pair_expr_eq c s p k = Inr x"
  shows "val_expr_pair_expr_eq c s' p k = Inr x"
proof -
  from assms(2) obtain b where b: "expressions_equal_p c s (pair_e p) (pair_e k) = Inr b"
    by (auto simp: val_expr_pair_expr_eq_def and_then_eq_Inr)
  have b': "expressions_equal_p c s' (pair_e p) (pair_e k) = Inr b"
    using assms(1) b by (rule expressions_equal_p_extends)
  show ?thesis
    using assms b b'
    by (auto simp: val_expr_pair_expr_eq_def intro: vuse_ops_equal_extends split: if_splits)
qed

lemma val_expr_pair_expr_eq_key:
  "pair_e k = pair_e k' \<Longrightarrow> pair_vuses k = pair_vuses k' \<Longrightarrow>
   val_expr_pair_expr_eq c s p k = val_expr_pair_expr_eq c s p k'"
  by (simp add: val_expr_pair_expr_eq_def cong: if_cong)

lemma expressions_equal_p_refl [simp]: "expressions_equal_p c s a a = Inr True"
  by (simp add: expressions_equal_p_def)

lemma vuse_ops_equal_refl [simp]: "vuse_ops_equal c s xs xs = Inr True"
  by (induction xs) simp_all

lemma val_expr_pair_expr_eq_refl:
  "pair_e p = pair_e k \<Longrightarrow> pair_vuses p = pair_vuses k \<Longrightarrow> val_expr_pair_expr_eq c s p k = Inr True"
  by (simp add: val_expr_pair_expr_eq_def)

lemma set_value_handle_extends: "set_value_handle c e v s = Inr s' \<Longrightarrow> extends s s'"
  by (auto simp: set_value_handle_def and_then_eq_Inr deref_eq_Inr
      intro!: extends_store split: if_splits)

lemma add_to_value_extends: "add_to_value c v e s = Inr s' \<Longrightarrow> extends s s'"
  by (auto simp: add_to_value_def and_then_eq_Inr deref_eq_Inr
      intro!: extends_store split: if_splits)

lemma add_to_value_frame:
  "add_to_value c v e s = Inr s' \<Longrightarrow>
     value_table s' = value_table s \<and> id_static s' = id_static s \<and>
     length (nodes s') = length (nodes s)"
  by (auto simp: add_to_value_def and_then_eq_Inr split: if_splits)

lemma add_to_value_total: "valid_tree s v \<Longrightarrow> \<exists>s'. add_to_value c v e s = Inr s'"
  by (simp add: add_to_value_def is_gimple_min_invariant_valid deref_valid)

lemma make_value_handle_facts:
  assumes "make_value_handle tt s = (vh, s')"
  shows "vh = Suc (length (nodes s))" "length (nodes s') = Suc (length (nodes s))"
    "value_table s' = value_table s" "id_static s' = id_static s + 1"
    "extends s s'" "valid_tree s' vh"
    "value_handle_id (node_at s' vh) = id_static s"
    "node_code (node_at s' vh) = VALUE_HANDLE"
    "node_type (node_at s' vh) = tt"
    "node_ann (node_at s' vh) = None"
  using assms
  by (auto simp: make_value_handle_def build0_def make_node_def store_def extends_def
      valid_tree_def node_at_def nth_append Let_def)

subsection \<open>What \<open>vn_lookup\<close> and \<open>vn_add\<close> do\<close>

lemma vn_compute_0_eq_Inr:
  "vn_compute c expr 0 vuses s = Inr h \<longleftrightarrow>
     valid_tree s expr \<and> \<not> stmt_annotated (node_at s expr) \<and> h = vn_hash c expr vuses"
  by (simp add: vn_compute_eq_Inr vn_hash_def)

lemma vn_key_simps [simp]:
  "pair_v (vn_key c v e d) = v" "pair_e (vn_key c v e d) = e"
  "pair_vuses (vn_key c v e d) = d" "pair_hashcode (vn_key c v e d) = vn_hash c e d"
  "val_expr_pair_hash (vn_key c v e d) = vn_hash c e d"
  by (simp_all add: vn_key_def val_expr_pair_hash_def)

lemma htab_probe_all_False:
  "(\<And>q. Some q \<in> set slots \<Longrightarrow> val_expr_pair_hash q = h \<Longrightarrow> eq_f q = Inr False) \<Longrightarrow>
   htab_probe eq_f h slots = Inr None"
proof (induction eq_f h slots rule: htab_probe.induct)
  case (1 eq_f hash)
  show ?case by simp
next
  case (2 eq_f hash slots)
  then show ?case by simp
next
  case (3 eq_f hash entry slots)
  have rest: "htab_probe eq_f hash slots = Inr None"
  proof (cases "val_expr_pair_hash entry = hash")
    case True
    then show ?thesis
      using "3.IH"(1) [of False] "3.prems" by simp
  next
    case False
    then show ?thesis
      using "3.IH"(2) "3.prems" by simp
  qed
  show ?case
    using rest "3.prems" [of entry] by simp
qed


lemma vn_lookup_probe:
  assumes "valid_tree s e" "\<not> ir_is_gimple_min_invariant c e" "\<not> stmt_annotated (node_at s e)"
    and "value_table s = Some tab"
    and "htab_probe (\<lambda>p. val_expr_pair_expr_eq c s p (vn_key c NULL_TREE e d)) (vn_hash c e d) tab = Inr r"
  shows "vn_lookup c e d s =
           Inr (case r of None \<Rightarrow> NULL_TREE | Some i \<Rightarrow> pair_v (the (tab ! i)), s)"
proof -
  have h: "vn_compute c e 0 d s = Inr (vn_hash c e d)"
    using assms by (simp add: vn_compute_0_eq_Inr)
  have s: "s\<lparr>value_table := Some tab\<rparr> = s"
    using assms(4) by simp
  show ?thesis
  proof (cases r)
    case None
    with assms h s show ?thesis
      by (simp add: vn_lookup_def is_gimple_min_invariant_valid htab_find_slot_with_hash_def
          vn_key_def [symmetric])
  next
    case (Some i)
    with htab_probe_Some [of _ _ tab i] assms(5)
    obtain p where "i < length tab" "tab ! i = Some p" by blast
    with Some assms h s show ?thesis
      by (simp add: vn_lookup_def is_gimple_min_invariant_valid htab_find_slot_with_hash_def
          vn_key_def [symmetric])
  qed
qed

lemma vn_lookup_Inr_nonconst:
  assumes "vn_lookup c e d s = Inr (v, s')" and "\<not> ir_is_gimple_min_invariant c e"
  obtains tab r where "valid_tree s e" "\<not> stmt_annotated (node_at s e)"
    "value_table s = Some tab"
    "htab_probe (\<lambda>p. val_expr_pair_expr_eq c s p (vn_key c NULL_TREE e d)) (vn_hash c e d) tab = Inr r"
    "v = (case r of None \<Rightarrow> NULL_TREE | Some i \<Rightarrow> pair_v (the (tab ! i)))" "s' = s"
proof -
  from assms have ve: "valid_tree s e"
    by (auto simp: vn_lookup_def and_then_eq_Inr is_gimple_min_invariant_eq_Inr)
  with assms have c: "\<not> stmt_annotated (node_at s e)"
    by (auto simp: vn_lookup_def and_then_eq_Inr is_gimple_min_invariant_valid vn_compute_0_eq_Inr)
  from assms ve c obtain tab where tab: "value_table s = Some tab"
    by (cases "value_table s")
       (auto simp: vn_lookup_def and_then_eq_Inr is_gimple_min_invariant_valid vn_compute_0_eq_Inr
         htab_find_slot_with_hash_def)
  from assms ve c tab obtain r where
    r: "htab_probe (\<lambda>p. val_expr_pair_expr_eq c s p (vn_key c NULL_TREE e d)) (vn_hash c e d) tab = Inr r"
    by (auto simp: vn_lookup_def and_then_eq_Inr is_gimple_min_invariant_valid vn_compute_0_eq_Inr
         htab_find_slot_with_hash_def vn_key_def [symmetric])
  from vn_lookup_probe [OF ve assms(2) c tab r] assms(1) that [OF ve c tab r] show ?thesis
    by simp
qed

lemma vn_lookup_state:
  assumes "vn_lookup c e d s = Inr (v, s')"
  shows "s' = s"
proof (cases "ir_is_gimple_min_invariant c e")
  case True
  with assms show ?thesis
    by (auto simp: vn_lookup_def and_then_eq_Inr is_gimple_min_invariant_eq_Inr)
next
  case False
  with assms show ?thesis
    by (auto elim: vn_lookup_Inr_nonconst)
qed

lemma vn_add_probe:
  assumes "valid_tree s e" "\<not> stmt_annotated (node_at s e)"
    and "value_table s = Some tab"
    and "htab_probe (\<lambda>p. val_expr_pair_expr_eq c s p (vn_key c v e d)) (vn_hash c e d) tab = Inr r"
  shows "vn_add c e v d s =
           and_then (set_value_handle c e v
             (s\<lparr>value_table := Some (case r of None \<Rightarrow> tab @ [Some (vn_key c v e d)]
                                      | Some i \<Rightarrow> tab[i := Some (vn_key c v e d)])\<rparr>))
             (add_to_value c v e)"
proof -
  have h: "vn_compute c e 0 d s = Inr (vn_hash c e d)"
    using assms by (simp add: vn_compute_0_eq_Inr)
  show ?thesis
    using assms(3,4) h
    by (cases r)
       (simp_all add: vn_add_def htab_find_slot_with_hash_def vn_key_def [symmetric])
qed

lemma vn_add_Inr:
  assumes "vn_add c e v d s = Inr s'"
  obtains tab r where "valid_tree s e" "\<not> stmt_annotated (node_at s e)"
    "value_table s = Some tab"
    "htab_probe (\<lambda>p. val_expr_pair_expr_eq c s p (vn_key c v e d)) (vn_hash c e d) tab = Inr r"
proof -
  from assms have ve: "valid_tree s e" "\<not> stmt_annotated (node_at s e)"
    by (auto simp: vn_add_def and_then_eq_Inr vn_compute_0_eq_Inr)
  from assms ve obtain tab where tab: "value_table s = Some tab"
    by (cases "value_table s")
       (auto simp: vn_add_def and_then_eq_Inr vn_compute_0_eq_Inr htab_find_slot_with_hash_def)
  from assms ve tab obtain r where
    "htab_probe (\<lambda>p. val_expr_pair_expr_eq c s p (vn_key c v e d)) (vn_hash c e d) tab = Inr r"
    by (auto simp: vn_add_def and_then_eq_Inr vn_compute_0_eq_Inr Let_def
         htab_find_slot_with_hash_def vn_key_def [symmetric])
  with ve tab that show ?thesis by blast
qed

lemma vn_add_frame:
  assumes "vn_add c e v d s = Inr s'"
  shows "extends s s'" "id_static s' = id_static s" "length (nodes s') = length (nodes s)"
proof -
  from assms obtain tab r where a: "valid_tree s e" "\<not> stmt_annotated (node_at s e)"
    "value_table s = Some tab"
    "htab_probe (\<lambda>p. val_expr_pair_expr_eq c s p (vn_key c v e d)) (vn_hash c e d) tab = Inr r"
    by (rule vn_add_Inr)
  let ?s0 = "s\<lparr>value_table := Some (case r of None \<Rightarrow> tab @ [Some (vn_key c v e d)]
                                      | Some i \<Rightarrow> tab[i := Some (vn_key c v e d)])\<rparr>"
  from assms vn_add_probe [OF a] obtain s1 where
    s1: "set_value_handle c e v ?s0 = Inr s1" "add_to_value c v e s1 = Inr s'"
    by (auto simp: and_then_eq_Inr)
  have "extends s ?s0" by simp
  with set_value_handle_extends [OF s1(1)] add_to_value_extends [OF s1(2)]
  show "extends s s'" by (blast intro: extends_trans)
  from set_value_handle_frame [OF s1(1)] add_to_value_frame [OF s1(2)]
  show "id_static s' = id_static s" "length (nodes s') = length (nodes s)" by simp_all
qed

lemma vn_add_table:
  assumes "vn_add c e v d s = Inr s'"
    and "value_table s = Some tab"
    and "htab_probe (\<lambda>p. val_expr_pair_expr_eq c s p (vn_key c v e d)) (vn_hash c e d) tab = Inr r"
  shows "value_table s' = Some (case r of None \<Rightarrow> tab @ [Some (vn_key c v e d)]
                                      | Some i \<Rightarrow> tab[i := Some (vn_key c v e d)])"
proof -
  from assms(1) have a: "valid_tree s e" "\<not> stmt_annotated (node_at s e)"
    by (auto elim: vn_add_Inr)
  let ?s0 = "s\<lparr>value_table := Some (case r of None \<Rightarrow> tab @ [Some (vn_key c v e d)]
                                      | Some i \<Rightarrow> tab[i := Some (vn_key c v e d)])\<rparr>"
  from assms vn_add_probe [OF a assms(2,3)] obtain s1 where
    s1: "set_value_handle c e v ?s0 = Inr s1" "add_to_value c v e s1 = Inr s'"
    by (auto simp: and_then_eq_Inr)
  from set_value_handle_frame [OF s1(1)] add_to_value_frame [OF s1(2)]
  show ?thesis by simp
qed

lemma table_update_reads [simp]:
  "valid_tree (s\<lparr>value_table := t\<rparr>) u = valid_tree s u"
  "node_at (s\<lparr>value_table := t\<rparr>) u = node_at s u"
  "deref (s\<lparr>value_table := t\<rparr>) u = deref s u"
  "is_gimple_min_invariant c (s\<lparr>value_table := t\<rparr>) u = is_gimple_min_invariant c s u"
  by (simp_all add: valid_tree_def node_at_def deref_def is_gimple_min_invariant_def)

lemma get_value_handle_table [simp]:
  "get_value_handle c e (s\<lparr>value_table := t\<rparr>) = get_value_handle c e s"
  by (simp add: get_value_handle_def cong: if_cong)

lemma vn_compute_extends:
  assumes "extends s s'" and "valid_tree s e"
  shows "vn_compute c e val d s' = vn_compute c e val d s"
proof (cases "stmt_annotated (node_at s e)")
  case True
  with assms show ?thesis
    by (simp add: vn_compute_stmt extends_valid extends_stmt)
next
  case False
  with assms show ?thesis
    by (simp add: vn_compute_ok extends_valid extends_stmt)
qed

lemma set_value_handle_eq_Inr:
  "(\<exists>s'. set_value_handle c e v s = Inr s') \<longleftrightarrow> valid_tree s e \<and> handle_settable c s e"
  by (auto simp: set_value_handle_def handle_settable_def and_then_eq_Inr deref_eq_Inr
      is_gimple_min_invariant_eq_Inr gcc_assert_def split: if_splits)

lemma handle_settable_extends:
  "extends s s' \<Longrightarrow> valid_tree s e \<Longrightarrow> handle_settable c s' e = handle_settable c s e"
  by (simp add: handle_settable_def EXPR_P_def DECL_P_def extends_code)

lemma set_value_handle_get:
  assumes "set_value_handle c e v s = Inr s'" and "\<not> ir_is_gimple_min_invariant c e"
  shows "get_value_handle c e s' = Inr v"
proof -
  from assms(1) have ve: "valid_tree s e"
    by (auto simp: set_value_handle_def and_then_eq_Inr deref_eq_Inr)
  let ?n = "node_at s e"
  show ?thesis
  proof (cases "node_code ?n = SSA_NAME")
    case True
    with assms(1) ve have s': "s' = store s e (?n\<lparr>ssa_name_value := v\<rparr>)"
      by (simp add: set_value_handle_def deref_valid)
    show ?thesis
      using ve assms(2) True
      by (simp add: s' get_value_handle_def is_gimple_min_invariant_valid deref_valid
          nodes_store_same)
  next
    case False
    show ?thesis
    proof (cases "EXPR_P ?n \<or> DECL_P ?n")
      case True
      with assms(1) ve False
      have s': "s' = store s e (?n\<lparr>node_ann := Some ((get_tree_ann ?n)\<lparr>value_handle := v\<rparr>)\<rparr>)"
        by (simp add: set_value_handle_def deref_valid)
      show ?thesis
        using ve assms(2) True False
        by (auto simp: s' get_value_handle_def is_gimple_min_invariant_valid deref_valid
            nodes_store_same tree_ann_def EXPR_P_def DECL_P_def)
    next
      case False
      with assms ve \<open>node_code ?n \<noteq> SSA_NAME\<close> show ?thesis
        by (simp add: set_value_handle_def deref_valid is_gimple_min_invariant_valid)
    qed
  qed
qed

lemma vn_add_total:
  assumes "valid_tree s e" "\<not> stmt_annotated (node_at s e)" "handle_settable c s e"
    and "valid_tree s v" and "value_table s = Some tab"
    and "htab_probe (\<lambda>p. val_expr_pair_expr_eq c s p (vn_key c v e d)) (vn_hash c e d) tab = Inr r"
  shows "\<exists>s'. vn_add c e v d s = Inr s'"
proof -
  let ?s0 = "s\<lparr>value_table := Some (case r of None \<Rightarrow> tab @ [Some (vn_key c v e d)]
                                      | Some i \<Rightarrow> tab[i := Some (vn_key c v e d)])\<rparr>"
  have "handle_settable c ?s0 e"
    using assms(3) by (simp add: handle_settable_def)
  with assms(1) obtain s1 where s1: "set_value_handle c e v ?s0 = Inr s1"
    using set_value_handle_eq_Inr [of c e v ?s0] by auto
  have "valid_tree s1 v"
    using set_value_handle_extends [OF s1] assms(4) by (auto intro: extends_valid)
  then obtain s' where "add_to_value c v e s1 = Inr s'"
    using add_to_value_total by blast
  with s1 vn_add_probe [OF assms(1,2,5,6)] show ?thesis by simp
qed

lemma vn_add_then_probe:
  assumes "vn_add c e v d s = Inr s'"
    and "\<And>q b. val_expr_pair_hash q = vn_hash c e d \<Longrightarrow>
            val_expr_pair_expr_eq c s q (vn_key c v e d) = Inr b \<Longrightarrow> eq2 q = Inr b"
    and "eq2 (vn_key c v e d) = Inr True"
  shows "\<exists>tab tab' i. value_table s = Some tab \<and> value_table s' = Some tab' \<and>
           i < length tab' \<and> tab' ! i = Some (vn_key c v e d) \<and>
           htab_probe eq2 (vn_hash c e d) tab' = Inr (Some i) \<and>
           (i < length tab \<and> tab' = tab[i := Some (vn_key c v e d)] \<or>
            i = length tab \<and> tab' = tab @ [Some (vn_key c v e d)])"
proof -
  let ?k = "vn_key c v e d" and ?h = "vn_hash c e d"
  from assms(1) obtain tab r where a: "value_table s = Some tab"
    "htab_probe (\<lambda>p. val_expr_pair_expr_eq c s p ?k) ?h tab = Inr r"
    by (rule vn_add_Inr)
  note t = vn_add_table [OF assms(1) a]
  show ?thesis
  proof (cases r)
    case None
    have "htab_probe eq2 ?h tab = Inr None"
      using a(2) None assms(2) by (auto intro: htab_probe_cong)
    then have "htab_probe eq2 ?h (tab @ [Some ?k]) = Inr (Some (length tab))"
      using htab_probe_snoc [of eq2 ?h tab ?k True] assms(3) by simp
    with a(1) t None show ?thesis by simp
  next
    case (Some i)
    with a(2) have i: "i < length tab"
      by (auto dest: htab_probe_Some)
    have "htab_probe eq2 ?h (tab[i := Some ?k]) = Inr (Some i)"
      using a(2) Some assms(2,3) by (intro htab_probe_update [where ?eq1.0="\<lambda>p. val_expr_pair_expr_eq c s p ?k"]) auto
    with a(1) t Some i show ?thesis by simp
  qed
qed

subsection \<open>Running the small program\<close>

text \<open>The definitions unfolded to run the functions on the small program.\<close>

lemmas ex_defs = ex_state_def ex_nodes_def ex_ir_def ex_rep_def make_node_def

lemmas vn_defs = vn_lookup_or_add_def vn_lookup_def vn_add_def vn_compute_def
  htab_find_slot_with_hash_def set_value_handle_def add_to_value_def make_value_handle_def
  build0_def store_def deref_def valid_tree_def node_at_def is_gimple_min_invariant_def
  val_expr_pair_expr_eq_def expressions_equal_p_def val_expr_pair_hash_def
  get_value_handle_def tree_ann_def get_tree_ann_def EXPR_P_def DECL_P_def
  vuse_ops_def NUM_VUSES_def NULL_TREE_def vn_delete_def vn_init_def

lemma ex_collision: "val_expr_pair_hash (vn_key ex_ir 10 4 (Some [7])) = vn_hash ex_ir 5 (Some [8])"
  by (simp add: vn_hash_def vuse_ops_def ex_ir_def ex_rep_def)

subsection \<open>Constants, and the table that is not there\<close>

lemma vn_lookup_or_add_constant:
  assumes "valid_tree s e" and "ir_is_gimple_min_invariant c e"
  shows "\<exists>s'. vn_lookup_or_add c e vuses s = Inr (e, s')"
proof -
  obtain s' where "set_value_handle c e e s = Inr s'"
    using set_value_handle_total [of s e c e] assms by blast
  with assms show ?thesis
    by (simp add: vn_lookup_or_add_def vn_lookup_constant valid_not_NULL)
qed

lemma vn_add_needs_table: "value_table s = None \<Longrightarrow> isl (vn_add c e v d s)"
proof (cases "vn_add c e v d s")
  case (Inl a)
  then show ?thesis by simp
next
  case (Inr s')
  assume "value_table s = None"
  with Inr show ?thesis
    by (auto elim: vn_add_Inr)
qed

lemma vn_lookup_needs_table:
  assumes "value_table s = None" and "\<not> ir_is_gimple_min_invariant c e"
  shows "isl (vn_lookup c e d s)"
proof (cases "vn_lookup c e d s")
  case (Inl a)
  then show ?thesis by simp
next
  case (Inr r)
  then have r: "vn_lookup c e d s = Inr (fst r, snd r)" by simp
  from r assms(2) obtain tab where "value_table s = Some tab"
    by (rule vn_lookup_Inr_nonconst)
  with assms(1) show ?thesis by simp
qed

lemma vn_lookup_or_add_needs_table:
  assumes "value_table s = None" and "\<not> ir_is_gimple_min_invariant c e"
  shows "isl (vn_lookup_or_add c e d s)"
proof -
  from vn_lookup_needs_table [OF assms, of d] obtain a where "vn_lookup c e d s = Inl a"
    by (cases "vn_lookup c e d s") auto
  then show ?thesis
    by (simp add: vn_lookup_or_add_def)
qed

lemma vn_add_settable:
  assumes "vn_add c e v d s = Inr s'"
  shows "handle_settable c s e" and "valid_tree s v"
proof -
  from assms obtain tab r where a: "valid_tree s e" "\<not> stmt_annotated (node_at s e)"
    "value_table s = Some tab"
    "htab_probe (\<lambda>p. val_expr_pair_expr_eq c s p (vn_key c v e d)) (vn_hash c e d) tab = Inr r"
    by (rule vn_add_Inr)
  let ?s0 = "s\<lparr>value_table := Some (case r of None \<Rightarrow> tab @ [Some (vn_key c v e d)]
                                      | Some i \<Rightarrow> tab[i := Some (vn_key c v e d)])\<rparr>"
  from assms vn_add_probe [OF a] obtain s1 where
    s1: "set_value_handle c e v ?s0 = Inr s1" "add_to_value c v e s1 = Inr s'"
    by (auto simp: and_then_eq_Inr)
  from s1(1) set_value_handle_eq_Inr [of c e v ?s0] show "handle_settable c s e"
    by (auto simp: handle_settable_def)
  from s1(2) have "valid_tree s1 v"
    by (auto simp: add_to_value_def and_then_eq_Inr is_gimple_min_invariant_eq_Inr)
  with set_value_handle_frame [OF s1(1)] show "valid_tree s v"
    by (simp add: valid_tree_def)
qed

lemma ex_replace_run:
  "value_table (projr (vn_add ex_ir 5 14 (Some [7]) ex_state_m1)) =
     Some [None, Some (vn_key ex_ir 14 5 (Some [7]))]"
  by (simp add: ex_state_m1_def vn_key_def vn_hash_def vn_defs ex_defs Let_def)

subsection \<open>The counter of handle ids\<close>

lemma make_value_handle_keeps_ids:
  assumes "make_value_handle tt s = (vh, s')" and "valid_tree s p"
  shows "VALUE_HANDLE_ID s' p = VALUE_HANDLE_ID s p"
  using assms
  by (auto simp: make_value_handle_def build0_def make_node_def store_def valid_tree_def
      node_at_def VALUE_HANDLE_ID_def nth_append Let_def nth_list_update)

lemma make_value_handles_keeps_ids:
  "make_value_handles tts s = (vhs, s') \<Longrightarrow> valid_tree s p \<Longrightarrow>
     VALUE_HANDLE_ID s' p = VALUE_HANDLE_ID s p"
proof (induction tts arbitrary: s vhs s')
  case Nil
  then show ?case by simp
next
  case (Cons tt tts)
  obtain vh s1 where m: "make_value_handle tt s = (vh, s1)"
    by (cases "make_value_handle tt s")
  obtain vhs1 s2 where r: "make_value_handles tts s1 = (vhs1, s2)"
    by (cases "make_value_handles tts s1")
  from Cons.prems(1) m r have eq: "s' = s2"
    by simp
  have "valid_tree s1 p"
    using make_value_handle_facts(5) [OF m] Cons.prems(2) by (rule extends_valid)
  from Cons.IH [OF r this] make_value_handle_keeps_ids [OF m Cons.prems(2)] eq
  show ?case by simp
qed

lemma make_value_handles_counter:
  "make_value_handles tts s = (vhs, s') \<Longrightarrow> id_static s' = id_static s + of_nat (length tts)"
proof (induction tts arbitrary: s vhs s')
  case Nil
  then show ?case by simp
next
  case (Cons tt tts)
  obtain vh s1 where m: "make_value_handle tt s = (vh, s1)"
    by (cases "make_value_handle tt s")
  obtain vhs1 s2 where r: "make_value_handles tts s1 = (vhs1, s2)"
    by (cases "make_value_handles tts s1")
  from Cons.prems(1) m r have eq: "s' = s2"
    by simp
  from Cons.IH [OF r] make_value_handle_facts(4) [OF m] eq show ?case
    by (simp add: add.assoc add.commute)
qed

lemma created_ids_Nil [simp]: "created_ids [] s = []"
  by (simp add: created_ids_def)

lemma created_ids_Cons:
  "created_ids (tt # tts) s = id_static s # created_ids tts (snd (make_value_handle tt s))"
proof -
  obtain vh s1 where m: "make_value_handle tt s = (vh, s1)"
    by (cases "make_value_handle tt s")
  obtain vhs1 s2 where r: "make_value_handles tts s1 = (vhs1, s2)"
    by (cases "make_value_handles tts s1")
  have "VALUE_HANDLE_ID s2 vh = VALUE_HANDLE_ID s1 vh"
    using r make_value_handle_facts(6) [OF m] by (rule make_value_handles_keeps_ids)
  also have "\<dots> = id_static s"
    using make_value_handle_facts(7) [OF m] by (simp add: VALUE_HANDLE_ID_def)
  finally show ?thesis
    using m r by (simp add: created_ids_def)
qed

lemma created_ids_eq:
  "created_ids tts s = map (\<lambda>k. id_static s + of_nat k) [0..<length tts]"
proof (induction tts arbitrary: s)
  case Nil
  show ?case by simp
next
  case (Cons tt tts)
  obtain vh s1 where m: "make_value_handle tt s = (vh, s1)"
    by (cases "make_value_handle tt s")
  have "created_ids tts s1 = map (\<lambda>k. id_static s + of_nat (Suc k)) [0..<length tts]"
    using Cons.IH [of s1] make_value_handle_facts(4) [OF m]
    by (simp add: add.assoc add.commute)
  also have "\<dots> = map (\<lambda>k. id_static s + of_nat k) (map Suc [0..<length tts])"
    by (simp add: comp_def)
  also have "\<dots> = map (\<lambda>k. id_static s + of_nat k) [Suc 0..<Suc (length tts)]"
    by (simp only: map_Suc_upt)
  finally show ?case
    using m by (simp add: created_ids_Cons upt_conv_Cons del: upt_Suc)
qed

lemma counter_step_less:
  fixes a :: "32 word"
  assumes "unat a + j < 2 ^ 32" and "i < j"
  shows "a + of_nat i < a + of_nat j"
proof -
  have "unat (a + of_nat i) = unat a + i" "unat (a + of_nat j) = unat a + j"
    using assms by (simp_all add: unat_word_ariths unat_of_nat)
  with assms(2) show ?thesis
    by (simp add: word_less_nat_alt)
qed

lemma counter_reaches_wrap:
  assumes "id_static s = 0" and "length tts = 2 ^ 32 - 1"
  shows "id_static (snd (make_value_handles tts s)) = 0xFFFFFFFF"
proof -
  obtain vhs s' where r: "make_value_handles tts s = (vhs, s')"
    by (cases "make_value_handles tts s")
  from make_value_handles_counter [OF r] assms show ?thesis
    by (simp add: r)
qed

lemma id_reused_after_wrap:
  assumes "length tts = 2 ^ 32 + 1"
  shows "created_ids tts s ! (2 ^ 32) = created_ids tts s ! 0"
  using assms by (simp add: created_ids_eq)

subsection \<open>What \<open>vn_lookup_or_add\<close> does\<close>

lemma vn_lookup_or_add_Inr:
  assumes "vn_lookup_or_add c e d s = Inr (h, s')"
  obtains (hit) "vn_lookup c e d s = Inr (h, s)" "h \<noteq> NULL_TREE"
      "set_value_handle c e h s = Inr s'"
    | (miss) s2 s3 where "vn_lookup c e d s = Inr (NULL_TREE, s)" "valid_tree s e"
      "make_value_handle (node_type (node_at s e)) s = (h, s2)"
      "vn_add c e h d s2 = Inr s3" "set_value_handle c e h s3 = Inr s'"
proof -
  from assms obtain v s1 where l: "vn_lookup c e d s = Inr (v, s1)"
    by (auto simp: vn_lookup_or_add_def and_then_eq_Inr)
  then have [simp]: "s1 = s" by (rule vn_lookup_state)
  show ?thesis
  proof (cases "v = NULL_TREE")
    case False
    with assms l have "h = v" "set_value_handle c e h s = Inr s'"
      by (auto simp: vn_lookup_or_add_def and_then_eq_Inr)
    with l False hit show ?thesis by simp
  next
    case True
    with assms l have ve: "valid_tree s e"
      by (auto simp: vn_lookup_or_add_def and_then_eq_Inr deref_eq_Inr)
    obtain v' s2 where m: "make_value_handle (node_type (node_at s e)) s = (v', s2)"
      by (cases "make_value_handle (node_type (node_at s e)) s")
    from assms l True ve m obtain s3 where "vn_add c e v' d s2 = Inr s3" "h = v'"
      "set_value_handle c e h s3 = Inr s'"
      by (auto simp: vn_lookup_or_add_def and_then_eq_Inr deref_valid)
    with l True ve m miss show ?thesis by simp
  qed
qed

lemma vn_lookup_or_add_hit:
  assumes "vn_lookup c e d s = Inr (v, s)" "v \<noteq> NULL_TREE" "set_value_handle c e v s = Inr s'"
  shows "vn_lookup_or_add c e d s = Inr (v, s')"
  using assms by (simp add: vn_lookup_or_add_def)

subsection \<open>Collaborators that keep the contract\<close>

lemma expressions_equal_p_transfer:
  assumes "lawful c" and "expressions_equal_p c s a b = Inr x"
    and "expressions_equal_p c s b d = Inr True"
  shows "expressions_equal_p c s a d = Inr x"
proof (cases "a = b \<or> b = d")
  case True
  with assms(2,3) show ?thesis by auto
next
  case False
  then have ne: "a \<noteq> b" "b \<noteq> d" by simp_all
  let ?P = "\<lambda>u w. node_code (node_at s u) = node_code (node_at s w) \<and>
      (node_type (node_at s u) = node_type (node_at s w) \<or>
       ir_types_compatible_p c (node_type (node_at s u)) (node_type (node_at s w))) \<and>
      ir_operand_equal_p c u w"
  from assms(2) ne(1) have v: "valid_tree s a" "valid_tree s b"
    by (auto simp: expressions_equal_p_def and_then_eq_Inr deref_eq_Inr)
  from assms(3) ne(2) have vd: "valid_tree s d"
    by (auto simp: expressions_equal_p_def and_then_eq_Inr deref_eq_Inr)
  have ab: "x = ?P a b"
    using assms(2) ne(1) v by (auto simp: expressions_equal_p_def deref_valid Let_def split: if_splits)
  have bd: "?P b d"
    using assms(3) ne(2) v vd by (auto simp: expressions_equal_p_def deref_valid Let_def split: if_splits)
  have sym: "?P u w \<Longrightarrow> ?P w u" for u w
    using assms(1) unfolding lawful_def by metis
  have trans: "?P u w \<Longrightarrow> ?P w z \<Longrightarrow> ?P u z" for u w z
    using assms(1) unfolding lawful_def by metis
  show ?thesis
  proof (cases "a = d")
    case True
    with bd sym have "?P a b" by blast
    with ab True show ?thesis by simp
  next
    case False
    have "?P a d = ?P a b"
      using bd sym trans by blast
    with ab False v vd show ?thesis
      by (simp add: expressions_equal_p_def deref_valid Let_def)
  qed
qed

lemma vuse_ops_equal_transfer:
  assumes "lawful c"
  shows "length ys = length zs \<Longrightarrow> vuse_ops_equal c s xs ys = Inr x \<Longrightarrow>
         vuse_ops_equal c s ys zs = Inr True \<Longrightarrow> vuse_ops_equal c s xs zs = Inr x"
proof (induction xs arbitrary: ys zs)
  case Nil
  then show ?case by simp
next
  case (Cons a xs)
  from Cons.prems(2) obtain b ys' where ys: "ys = b # ys'"
    by (cases ys) simp_all
  with Cons.prems(1) obtain d zs' where zs: "zs = d # zs'"
    by (cases zs) simp_all
  from Cons.prems(3) ys zs have bd: "expressions_equal_p c s b d = Inr True"
    and rest: "vuse_ops_equal c s ys' zs' = Inr True"
    by (auto simp: and_then_eq_Inr split: if_splits)
  from Cons.prems(2) ys obtain y where ab: "expressions_equal_p c s a b = Inr y"
    by (auto simp: and_then_eq_Inr)
  from expressions_equal_p_transfer [OF assms ab bd]
  have ad: "expressions_equal_p c s a d = Inr y" .
  show ?case
  proof (cases y)
    case False
    with Cons.prems(2) ys ab ad zs show ?thesis by simp
  next
    case True
    with Cons.prems(2) ys ab have "vuse_ops_equal c s xs ys' = Inr x" by simp
    from Cons.IH [OF _ this rest] Cons.prems(1) ys zs ad True show ?thesis by simp
  qed
qed

lemma val_expr_pair_expr_eq_transfer:
  assumes "lawful c" and "val_expr_pair_expr_eq c s q k1 = Inr b"
    and "val_expr_pair_expr_eq c s k1 k2 = Inr True"
  shows "val_expr_pair_expr_eq c s q k2 = Inr b"
proof -
  from assms(3) have e12: "expressions_equal_p c s (pair_e k1) (pair_e k2) = Inr True"
    and n12: "NUM_VUSES (pair_vuses k1) = NUM_VUSES (pair_vuses k2)"
    and v12: "vuse_ops_equal c s (vuse_ops (pair_vuses k1)) (vuse_ops (pair_vuses k2)) = Inr True"
    by (auto simp: val_expr_pair_expr_eq_def and_then_eq_Inr split: if_splits)
  from assms(2) obtain y where q1: "expressions_equal_p c s (pair_e q) (pair_e k1) = Inr y"
    by (auto simp: val_expr_pair_expr_eq_def and_then_eq_Inr)
  from expressions_equal_p_transfer [OF assms(1) q1 e12]
  have q2: "expressions_equal_p c s (pair_e q) (pair_e k2) = Inr y" .
  show ?thesis
  proof (cases "y \<and> NUM_VUSES (pair_vuses q) = NUM_VUSES (pair_vuses k1)")
    case False
    with assms(2) q1 q2 n12 show ?thesis
      by (auto simp: val_expr_pair_expr_eq_def)
  next
    case True
    with assms(2) q1 have "vuse_ops_equal c s (vuse_ops (pair_vuses q)) (vuse_ops (pair_vuses k1)) = Inr b"
      by (simp add: val_expr_pair_expr_eq_def)
    from vuse_ops_equal_transfer [OF assms(1) _ this v12] n12
    have "vuse_ops_equal c s (vuse_ops (pair_vuses q)) (vuse_ops (pair_vuses k2)) = Inr b"
      by (simp add: NUM_VUSES_def)
    with True q2 n12 show ?thesis
      by (simp add: val_expr_pair_expr_eq_def)
  qed
qed

lemma fold_hash_respects:
  assumes "hash_respects c s"
  shows "length xs = length ys \<Longrightarrow> vuse_ops_equal c s xs ys = Inr True \<Longrightarrow>
         fold (ir_iterative_hash_expr c) xs val = fold (ir_iterative_hash_expr c) ys val"
proof (induction xs arbitrary: ys val)
  case Nil
  then show ?case by simp
next
  case (Cons a xs)
  from Cons.prems(1) obtain b ys' where ys: "ys = b # ys'"
    by (cases ys) simp_all
  from Cons.prems(2) ys have ab: "expressions_equal_p c s a b = Inr True"
    and rest: "vuse_ops_equal c s xs ys' = Inr True"
    by (auto simp: and_then_eq_Inr split: if_splits)
  from assms ab have "ir_iterative_hash_expr c a val = ir_iterative_hash_expr c b val"
    by (simp add: hash_respects_def)
  with Cons.IH [OF _ rest] Cons.prems(1) ys show ?case by simp
qed

lemma vn_hash_respects:
  assumes "hash_respects c s"
    and "val_expr_pair_expr_eq c s (vn_key c v1 e1 d1) (vn_key c v2 e2 d2) = Inr True"
  shows "vn_hash c e1 d1 = vn_hash c e2 d2"
proof -
  from assms(2) have e12: "expressions_equal_p c s e1 e2 = Inr True"
    and n12: "NUM_VUSES d1 = NUM_VUSES d2"
    and v12: "vuse_ops_equal c s (vuse_ops d1) (vuse_ops d2) = Inr True"
    by (auto simp: val_expr_pair_expr_eq_def and_then_eq_Inr split: if_splits)
  from assms(1) e12 have "ir_iterative_hash_expr c e1 0 = ir_iterative_hash_expr c e2 0"
    by (simp add: hash_respects_def)
  with fold_hash_respects [OF assms(1) _ v12] n12 show ?thesis
    by (simp add: vn_hash_def NUM_VUSES_def)
qed

subsection \<open>The second of two calls\<close>

lemma vn_lookup_or_add_settable:
  assumes "vn_lookup_or_add c e d s = Inr (h, s')"
  shows "valid_tree s e" and "handle_settable c s e"
proof -
  from assms have "valid_tree s e \<and> handle_settable c s e"
  proof (cases rule: vn_lookup_or_add_Inr)
    case hit
    from hit(3) set_value_handle_eq_Inr [of c e h s]
    show ?thesis by auto
  next
    case (miss s2 s3)
    from vn_add_settable(1) [OF miss(4)] have "handle_settable c s2 e" .
    with handle_settable_extends [OF make_value_handle_facts(5) [OF miss(3)] miss(2)] miss(2)
    show ?thesis by simp
  qed
  then show "valid_tree s e" and "handle_settable c s e"
    by simp_all
qed

lemma vn_lookup_or_add_extends:
  assumes "vn_lookup_or_add c e d s = Inr (h, s')"
  shows "extends s s'"
  using assms
proof (cases rule: vn_lookup_or_add_Inr)
  case hit
  then show ?thesis by (auto intro: set_value_handle_extends)
next
  case (miss s2 s3)
  from make_value_handle_facts(5) [OF miss(3)] vn_add_frame(1) [OF miss(4)]
    set_value_handle_extends [OF miss(5)]
  show ?thesis by (blast intro: extends_trans)
qed

lemma expressions_equal_p_True_valid:
  assumes "expressions_equal_p c s a b = Inr True" and "valid_tree s a"
  shows "valid_tree s b" and "node_code (node_at s b) = node_code (node_at s a)"
proof -
  show "valid_tree s b"
    using assms by (cases "a = b") (auto simp: expressions_equal_p_def and_then_eq_Inr deref_eq_Inr)
  show "node_code (node_at s b) = node_code (node_at s a)"
    using assms
    by (cases "a = b")
       (auto simp: expressions_equal_p_def and_then_eq_Inr deref_eq_Inr Let_def split: if_splits)
qed

lemma vuses_differ_not_equal:
  assumes "vuses_differ c s d1 d2" and "extends s s'"
  shows "val_expr_pair_expr_eq c s' (vn_key c v1 e1 d1) (vn_key c v2 e2 d2) \<noteq> Inr True"
proof
  assume "val_expr_pair_expr_eq c s' (vn_key c v1 e1 d1) (vn_key c v2 e2 d2) = Inr True"
  then have n: "NUM_VUSES d1 = NUM_VUSES d2"
    and t: "vuse_ops_equal c s' (vuse_ops d1) (vuse_ops d2) = Inr True"
    by (auto simp: val_expr_pair_expr_eq_def and_then_eq_Inr split: if_splits)
  from assms(1) n have "vuse_ops_equal c s (vuse_ops d1) (vuse_ops d2) = Inr False"
    by (simp add: vuses_differ_def)
  with assms(2) have "vuse_ops_equal c s' (vuse_ops d1) (vuse_ops d2) = Inr False"
    by (rule vuse_ops_equal_extends)
  with t show False by simp
qed

lemma vn_lookup_found:
  assumes "vn_lookup c e d s = Inr (v, s)" and "\<not> ir_is_gimple_min_invariant c e"
    and "v \<noteq> NULL_TREE"
  obtains tab i p where "value_table s = Some tab" "i < length tab" "tab ! i = Some p"
    "pair_v p = v" "val_expr_pair_expr_eq c s p (vn_key c NULL_TREE e d) = Inr True"
proof -
  from assms(1,2) obtain tab r where l: "value_table s = Some tab"
    "htab_probe (\<lambda>p. val_expr_pair_expr_eq c s p (vn_key c NULL_TREE e d)) (vn_hash c e d) tab = Inr r"
    "v = (case r of None \<Rightarrow> NULL_TREE | Some i \<Rightarrow> pair_v (the (tab ! i)))"
    by (rule vn_lookup_Inr_nonconst)
  from l(3) assms(3) obtain i where i: "r = Some i" "pair_v (the (tab ! i)) = v"
    by (cases r) simp_all
  from htab_probe_Some [OF l(2) [unfolded i(1)]] obtain p where "i < length tab" "tab ! i = Some p"
    "val_expr_pair_expr_eq c s p (vn_key c NULL_TREE e d) = Inr True"
    by blast
  with l(1) i(2) that show ?thesis by simp
qed

lemma vn_lookup_or_add_miss_table:
  assumes "vn_lookup c e d s = Inr (NULL_TREE, s)" and "\<not> ir_is_gimple_min_invariant c e"
    and "vn_lookup_or_add c e d s = Inr (h, s')"
  shows "h = Suc (length (nodes s))" and "length (nodes s') = Suc (length (nodes s))"
    and "\<exists>tab tab' i. value_table s = Some tab \<and> value_table s' = Some tab' \<and>
           i < length tab' \<and> tab' ! i = Some (vn_key c h e d) \<and>
           (\<forall>p. Some p \<in> set tab' \<longrightarrow> p = vn_key c h e d \<or> Some p \<in> set tab)"
proof -
  from assms(3) have "h = Suc (length (nodes s)) \<and> length (nodes s') = Suc (length (nodes s)) \<and>
     (\<exists>tab tab' i. value_table s = Some tab \<and> value_table s' = Some tab' \<and>
           i < length tab' \<and> tab' ! i = Some (vn_key c h e d) \<and>
           (\<forall>p. Some p \<in> set tab' \<longrightarrow> p = vn_key c h e d \<or> Some p \<in> set tab))"
  proof (cases rule: vn_lookup_or_add_Inr)
    case hit
    with assms(1) show ?thesis by simp
  next
    case (miss s2 s3)
    note f = make_value_handle_facts [OF miss(3)]
    from vn_add_then_probe [OF miss(4), of "\<lambda>q. val_expr_pair_expr_eq c s2 q (vn_key c h e d)"]
    obtain tab tab' i where t: "value_table s2 = Some tab" "value_table s3 = Some tab'"
      "i < length tab'" "tab' ! i = Some (vn_key c h e d)"
      "i < length tab \<and> tab' = tab[i := Some (vn_key c h e d)] \<or>
       i = length tab \<and> tab' = tab @ [Some (vn_key c h e d)]"
      by (auto simp: val_expr_pair_expr_eq_refl)
    have "\<forall>p. Some p \<in> set tab' \<longrightarrow> p = vn_key c h e d \<or> Some p \<in> set tab"
      using t(5) by (auto dest: set_update_subset_insert [THEN subsetD])
    with t f vn_add_frame [OF miss(4)] set_value_handle_frame [OF miss(5)]
    show ?thesis by auto
  qed
  then show "h = Suc (length (nodes s))" and "length (nodes s') = Suc (length (nodes s))"
    and "\<exists>tab tab' i. value_table s = Some tab \<and> value_table s' = Some tab' \<and>
           i < length tab' \<and> tab' ! i = Some (vn_key c h e d) \<and>
           (\<forall>p. Some p \<in> set tab' \<longrightarrow> p = vn_key c h e d \<or> Some p \<in> set tab)"
    by blast+
qed

lemma vn_lookup_or_add_fresh_or_found:
  assumes "vn_lookup_or_add c e d s = Inr (h, s')" and "\<not> ir_is_gimple_min_invariant c e"
  shows "(vn_lookup c e d s = Inr (NULL_TREE, s) \<and> h = Suc (length (nodes s))) \<or>
         (vn_lookup c e d s = Inr (h, s) \<and> h \<noteq> NULL_TREE \<and>
          length (nodes s') = length (nodes s) \<and> value_table s' = value_table s)"
  using assms(1)
proof (cases rule: vn_lookup_or_add_Inr)
  case hit
  with set_value_handle_frame [OF hit(3)] show ?thesis by simp
next
  case (miss s2 s3)
  with make_value_handle_facts(1) [OF miss(3)] show ?thesis by simp
qed

lemma ex_lawful: "lawful ex_ir"
  by (simp add: lawful_def ex_ir_def)

lemma ex_hash_respects: "hash_respects ex_ir s"
  by (auto simp: hash_respects_def expressions_equal_p_def and_then_eq_Inr ex_ir_def ex_rep_def
      Let_def split: if_splits)

lemma lawfulness_needed:
  "\<not> lawful ex2_ir \<and> hash_respects ex2_ir ex2_state \<and>
   val_expr_pair_expr_eq ex2_ir ex2_state (vn_key ex2_ir NULL_TREE 5 None)
     (vn_key ex2_ir NULL_TREE 6 None) = Inr True \<and>
   lookup_or_add_twice ex2_ir 5 None 6 None ex2_state = Inr (8, 7)"
proof -
  have "\<not> lawful ex2_ir"
  proof
    assume "lawful ex2_ir"
    then have "ir_types_compatible_p ex2_ir 1 3 \<longrightarrow> ir_types_compatible_p ex2_ir 3 2 \<longrightarrow>
        ir_types_compatible_p ex2_ir 1 2"
      unfolding lawful_def by blast
    then show False by (simp add: ex2_ir_def)
  qed
  moreover have "hash_respects ex2_ir ex2_state"
    by (simp add: hash_respects_def ex2_ir_def)
  moreover have "val_expr_pair_expr_eq ex2_ir ex2_state (vn_key ex2_ir NULL_TREE 5 None)
     (vn_key ex2_ir NULL_TREE 6 None) = Inr True"
    by (simp add: ex2_state_def ex2_nodes_def ex2_ir_def vn_key_def vn_hash_def vn_defs
        make_node_def Let_def)
  moreover have "lookup_or_add_twice ex2_ir 5 None 6 None ex2_state = Inr (8, 7)"
    by (simp add: lookup_or_add_twice_def ex2_state_def ex2_nodes_def ex2_ir_def vn_defs
        make_node_def Let_def)
  ultimately show ?thesis by simp
qed

subsection \<open>Sessions\<close>

lemma vn_lookup_or_add_effect:
  assumes "vn_lookup_or_add c e d s = Inr (h, s')"
  shows "extends s s' \<and>
         (length (nodes s') = length (nodes s) \<and> id_static s' = id_static s \<or>
          length (nodes s') = Suc (length (nodes s)) \<and> id_static s' = id_static s + 1 \<and>
          h = Suc (length (nodes s)) \<and>
          VALUE_HANDLE_ID s' (Suc (length (nodes s))) = id_static s)"
  using assms
proof (cases rule: vn_lookup_or_add_Inr)
  case hit
  with set_value_handle_frame [OF hit(3)] set_value_handle_extends [OF hit(3)]
  show ?thesis by simp
next
  case (miss s2 s3)
  note f = make_value_handle_facts [OF miss(3)]
  note a = vn_add_frame [OF miss(4)]
  note g = set_value_handle_frame [OF miss(5)]
  have e3: "extends s2 s'"
    using a(1) set_value_handle_extends [OF miss(5)] by (rule extends_trans)
  have "VALUE_HANDLE_ID s' h = id_static s"
    using extends_id [OF e3 f(6)] f(7) by (simp add: VALUE_HANDLE_ID_def)
  with f a g extends_trans [OF f(5) e3] show ?thesis
    by simp
qed

lemma vn_do_effect:
  assumes "vn_do c call s = Inr s'"
  shows "extends s s' \<and>
         (length (nodes s') = length (nodes s) \<and> id_static s' = id_static s \<or>
          length (nodes s') = Suc (length (nodes s)) \<and> id_static s' = id_static s + 1 \<and>
          VALUE_HANDLE_ID s' (Suc (length (nodes s))) = id_static s)"
proof (cases call)
  case VN_INIT
  with assms show ?thesis by (auto simp: vn_init_def)
next
  case VN_DELETE
  with assms show ?thesis by (auto simp: vn_delete_def split: option.splits)
next
  case (VN_LOOKUP e d)
  with assms obtain v where "vn_lookup c e d s = Inr (v, s')"
    by (auto simp: and_then_eq_Inr)
  from vn_lookup_state [OF this] show ?thesis by simp
next
  case (VN_ADD e v d)
  with assms vn_add_frame [of c e v d s s'] show ?thesis by simp
next
  case (VN_LOOKUP_OR_ADD e d)
  with assms obtain h where "vn_lookup_or_add c e d s = Inr (h, s')"
    by (auto simp: and_then_eq_Inr)
  from vn_lookup_or_add_effect [OF this] show ?thesis by blast
next
  case (GET_VALUE_HANDLE e)
  with assms show ?thesis by (auto simp: and_then_eq_Inr)
qed

lemma vn_session_effect:
  "vn_session c calls s = Inr s' \<Longrightarrow>
     extends s s' \<and>
     id_static s' = id_static s + of_nat (length (nodes s') - length (nodes s)) \<and>
     (\<forall>k < length (nodes s') - length (nodes s).
        VALUE_HANDLE_ID s' (Suc (length (nodes s) + k)) = id_static s + of_nat k)"
proof (induction calls arbitrary: s)
  case Nil
  then show ?case by simp
next
  case (Cons call calls)
  from Cons.prems obtain s1 where c1: "vn_do c call s = Inr s1" and r: "vn_session c calls s1 = Inr s'"
    by (auto simp: and_then_eq_Inr)
  note e1 = vn_do_effect [OF c1]
  note ih = Cons.IH [OF r]
  from e1 ih have ext: "extends s s'"
    by (blast intro: extends_trans)
  have len1: "length (nodes s1) \<le> length (nodes s')"
    using ih by (simp add: extends_def)
  from e1 show ?case
  proof (elim conjE disjE)
    assume "length (nodes s1) = length (nodes s)" "id_static s1 = id_static s"
    with ih ext show ?thesis by simp
  next
    assume n: "length (nodes s1) = Suc (length (nodes s))" and i: "id_static s1 = id_static s + 1"
      and v: "VALUE_HANDLE_ID s1 (Suc (length (nodes s))) = id_static s"
    let ?n = "length (nodes s)"
    have d: "length (nodes s') - ?n = Suc (length (nodes s') - length (nodes s1))"
      using n len1 by simp
    have cnt: "id_static s' = id_static s + of_nat (length (nodes s') - ?n)"
      using ih i d by (simp add: add.assoc add.commute)
    have first: "VALUE_HANDLE_ID s' (Suc ?n) = id_static s"
    proof -
      have "valid_tree s1 (Suc ?n)"
        using n by (simp add: valid_tree_def)
      with ih have "VALUE_HANDLE_ID s' (Suc ?n) = VALUE_HANDLE_ID s1 (Suc ?n)"
        by (simp add: VALUE_HANDLE_ID_def extends_id)
      with v show ?thesis by simp
    qed
    have ids: "VALUE_HANDLE_ID s' (Suc (?n + k)) = id_static s + of_nat k"
      if "k < length (nodes s') - ?n" for k
    proof (cases k)
      case 0
      with first show ?thesis by simp
    next
      case (Suc j)
      with that d have "j < length (nodes s') - length (nodes s1)" by simp
      with ih have "VALUE_HANDLE_ID s' (Suc (length (nodes s1) + j)) = id_static s1 + of_nat j"
        by simp
      with n i Suc show ?thesis
        by (simp add: add.assoc add.commute)
    qed
    from ext cnt ids show ?thesis by simp
  qed
qed

lemma created_ids_between:
  assumes "vn_session c calls s = Inr s'"
  shows "map (VALUE_HANDLE_ID s') (created_between s s') =
         map (\<lambda>k. id_static s + of_nat k) [0..<length (nodes s') - length (nodes s)]"
proof -
  note e = vn_session_effect [OF assms]
  then show ?thesis
    by (simp add: created_between_def)
qed

subsection \<open>Symmetry of the comparisons\<close>

lemma expressions_equal_p_sym:
  assumes "lawful c" and "expressions_equal_p c s a b = Inr True"
  shows "expressions_equal_p c s b a = Inr True"
proof (cases "a = b")
  case True
  then show ?thesis by simp
next
  case False
  with assms(2) have v: "valid_tree s a" "valid_tree s b"
    by (auto simp: expressions_equal_p_def and_then_eq_Inr deref_eq_Inr)
  from assms(2) False v
  have "node_code (node_at s a) = node_code (node_at s b) \<and>
      (node_type (node_at s a) = node_type (node_at s b) \<or>
       ir_types_compatible_p c (node_type (node_at s a)) (node_type (node_at s b))) \<and>
      ir_operand_equal_p c a b"
    by (auto simp: expressions_equal_p_def deref_valid Let_def split: if_splits)
  then have "node_code (node_at s b) = node_code (node_at s a) \<and>
      (node_type (node_at s b) = node_type (node_at s a) \<or>
       ir_types_compatible_p c (node_type (node_at s b)) (node_type (node_at s a))) \<and>
      ir_operand_equal_p c b a"
    using assms(1) unfolding lawful_def by metis
  with False v show ?thesis
    by (simp add: expressions_equal_p_def deref_valid Let_def)
qed

lemma vuse_ops_equal_sym:
  assumes "lawful c"
  shows "length xs = length ys \<Longrightarrow> vuse_ops_equal c s xs ys = Inr True \<Longrightarrow>
         vuse_ops_equal c s ys xs = Inr True"
proof (induction xs arbitrary: ys)
  case Nil
  then show ?case by simp
next
  case (Cons a xs)
  from Cons.prems(1) obtain b ys' where ys: "ys = b # ys'"
    by (cases ys) simp_all
  from Cons.prems(2) ys have ab: "expressions_equal_p c s a b = Inr True"
    and rest: "vuse_ops_equal c s xs ys' = Inr True"
    by (auto simp: and_then_eq_Inr split: if_splits)
  from expressions_equal_p_sym [OF assms ab] Cons.IH [OF _ rest] Cons.prems(1) ys
  show ?case by simp
qed

lemma val_expr_pair_expr_eq_sym:
  assumes "lawful c" and "val_expr_pair_expr_eq c s k1 k2 = Inr True"
  shows "val_expr_pair_expr_eq c s k2 k1 = Inr True"
proof -
  from assms(2) have e12: "expressions_equal_p c s (pair_e k1) (pair_e k2) = Inr True"
    and n12: "NUM_VUSES (pair_vuses k1) = NUM_VUSES (pair_vuses k2)"
    and v12: "vuse_ops_equal c s (vuse_ops (pair_vuses k1)) (vuse_ops (pair_vuses k2)) = Inr True"
    by (auto simp: val_expr_pair_expr_eq_def and_then_eq_Inr split: if_splits)
  from expressions_equal_p_sym [OF assms(1) e12] n12
    vuse_ops_equal_sym [OF assms(1) _ v12]
  show ?thesis
    by (simp add: val_expr_pair_expr_eq_def NUM_VUSES_def)
qed

subsection \<open>One entry per key\<close>

lemma expressions_equal_p_same:
  assumes "extends s s'" and "length (nodes s') = length (nodes s)"
  shows "expressions_equal_p c s' a b = expressions_equal_p c s a b"
proof -
  have v: "valid_tree s' t = valid_tree s t" for t
    using assms(2) by (simp add: valid_tree_def)
  show ?thesis
  proof (cases "valid_tree s a \<and> valid_tree s b")
    case True
    then show ?thesis
      by (simp add: expressions_equal_p_def deref_valid v extends_code [OF assms(1)]
          extends_type [OF assms(1)])
  next
    case False
    then show ?thesis
      by (auto simp: expressions_equal_p_def deref_def v and_then_def split: sum.splits)
  qed
qed

lemma vuse_ops_equal_same:
  assumes "extends s s'" and "length (nodes s') = length (nodes s)"
  shows "vuse_ops_equal c s' xs ys = vuse_ops_equal c s xs ys"
proof (induction xs arbitrary: ys)
  case Nil
  show ?case by simp
next
  case (Cons a xs)
  show ?case
  proof (cases ys)
    case Nil
    then show ?thesis by simp
  next
    case (Cons b ys')
    have "vuse_ops_equal c s' xs ys' = vuse_ops_equal c s xs ys'"
      by (rule Cons.IH)
    then show ?thesis
      by (simp add: Cons expressions_equal_p_same [OF assms] cong: if_cong)
  qed
qed

lemma val_expr_pair_expr_eq_same:
  assumes "extends s s'" and "length (nodes s') = length (nodes s)"
  shows "val_expr_pair_expr_eq c s' p q = val_expr_pair_expr_eq c s p q"
  by (simp add: val_expr_pair_expr_eq_def expressions_equal_p_same [OF assms]
      vuse_ops_equal_same [OF assms] cong: if_cong)

lemma hash_respects_same:
  assumes "extends s s'" and "length (nodes s') = length (nodes s)"
  shows "hash_respects c s' = hash_respects c s"
  by (simp add: hash_respects_def expressions_equal_p_same [OF assms])

lemma equal_entries_same_hash:
  assumes "hash_respects c s" and "val_expr_pair_expr_eq c s p q = Inr True"
  shows "vn_hash c (pair_e p) (pair_vuses p) = vn_hash c (pair_e q) (pair_vuses q)"
proof -
  have "val_expr_pair_expr_eq c s (vn_key c NULL_TREE (pair_e p) (pair_vuses p))
          (vn_key c NULL_TREE (pair_e q) (pair_vuses q)) = Inr True"
    using assms(2) by (simp only: val_expr_pair_expr_eq_def vn_key_simps)
  with assms(1) show ?thesis by (rule vn_hash_respects)
qed

lemma vn_add_one_entry_per_key:
  assumes law: "lawful c" and hr: "hash_respects c s"
    and keyed: "table_keyed c s" and one: "one_entry_per_key c s"
    and add: "vn_add c e v d s = Inr s'"
  shows "table_keyed c s' \<and> one_entry_per_key c s'"
proof -
  let ?k = "vn_key c v e d" and ?h = "vn_hash c e d"
  from add obtain tab r where a: "value_table s = Some tab"
    "htab_probe (\<lambda>p. val_expr_pair_expr_eq c s p ?k) ?h tab = Inr r"
    by (rule vn_add_Inr)
  note f = vn_add_frame [OF add]
  note same = val_expr_pair_expr_eq_same [OF f(1,3)]
  define n where "n = (case r of None \<Rightarrow> length tab | Some i \<Rightarrow> i)"
  define tab' where "tab' = (case r of None \<Rightarrow> tab @ [Some ?k] | Some i \<Rightarrow> tab[i := Some ?k])"
  have t': "value_table s' = Some tab'"
    using vn_add_table [OF add a] by (simp add: tab'_def)
  have found: "\<exists>p. tab ! n = Some p \<and> val_expr_pair_expr_eq c s p ?k = Inr True" "n < length tab"
    if "r = Some i" for i
    using htab_probe_Some [OF a(2) [unfolded that]] that by (auto simp: n_def)
  \<comment> \<open>the entries of the new table: the new one in its slot, the old ones in theirs\<close>
  have entries: "(x = ?k \<and> m = n) \<or> (m \<noteq> n \<and> m < length tab \<and> tab ! m = Some x)"
    if "m < length tab'" "tab' ! m = Some x" for m x
  proof (cases r)
    case None
    with that show ?thesis
      by (cases "m = length tab") (auto simp: tab'_def n_def nth_append)
  next
    case (Some i)
    with that found(2) [OF Some] show ?thesis
      by (cases "m = i") (auto simp: tab'_def n_def)
  qed
  \<comment> \<open>no old entry in another slot equals the new one\<close>
  have old_new: "val_expr_pair_expr_eq c s x ?k \<noteq> Inr True"
    if "m \<noteq> n" "m < length tab" "tab ! m = Some x" for m x
  proof
    assume eq: "val_expr_pair_expr_eq c s x ?k = Inr True"
    from equal_entries_same_hash [OF hr eq] keyed a(1) that(2,3)
    have hx: "val_expr_pair_hash x = ?h"
      by (simp add: table_keyed_def val_expr_pair_hash_def)
    show False
    proof (cases r)
      case None
      from that(2,3) have "Some x \<in> set tab"
        by (auto simp: in_set_conv_nth)
      with htab_probe_None [OF a(2) [unfolded None]] hx eq show False by simp
    next
      case (Some i)
      from found [OF Some] obtain p where p: "tab ! n = Some p"
        "val_expr_pair_expr_eq c s p ?k = Inr True" "n < length tab"
        by blast
      from law p(2) have "val_expr_pair_expr_eq c s ?k p = Inr True"
        by (rule val_expr_pair_expr_eq_sym)
      from val_expr_pair_expr_eq_transfer [OF law eq this]
      have "val_expr_pair_expr_eq c s x p = Inr True" .
      with one a(1) that p(1,3) show False
        unfolding one_entry_per_key_def by blast
    qed
  qed
  have new_old: "val_expr_pair_expr_eq c s ?k x \<noteq> Inr True"
    if "m \<noteq> n" "m < length tab" "tab ! m = Some x" for m x
    using old_new [OF that] val_expr_pair_expr_eq_sym [OF law] by blast
  have "table_keyed c s'"
    unfolding table_keyed_def
  proof (intro allI impI)
    fix tb i p
    assume "value_table s' = Some tb" "i < length tb" "tb ! i = Some p"
    with t' entries [of i p] keyed a(1)
    show "pair_hashcode p = vn_hash c (pair_e p) (pair_vuses p)"
      by (auto simp: table_keyed_def)
  qed
  moreover have "one_entry_per_key c s'"
    unfolding one_entry_per_key_def
  proof (intro allI impI)
    fix tb i j p q
    assume h: "value_table s' = Some tb" "i < length tb" "j < length tb" "i \<noteq> j"
      "tb ! i = Some p" "tb ! j = Some q"
    with t' have [simp]: "tb = tab'" by simp
    from entries [of i p] entries [of j q] h
    consider "p = ?k" "j \<noteq> n" "j < length tab" "tab ! j = Some q"
      | "q = ?k" "i \<noteq> n" "i < length tab" "tab ! i = Some p"
      | "i < length tab" "tab ! i = Some p" "j < length tab" "tab ! j = Some q"
      by auto
    then have "val_expr_pair_expr_eq c s p q \<noteq> Inr True"
    proof cases
      case 1
      with new_old show ?thesis by blast
    next
      case 2
      with old_new show ?thesis by blast
    next
      case 3
      with one a(1) h(4) show ?thesis
        unfolding one_entry_per_key_def by blast
    qed
    then show "val_expr_pair_expr_eq c s' p q \<noteq> Inr True"
      by (simp add: same)
  qed
  ultimately show ?thesis by simp
qed

subsection \<open>More runs of the two programs\<close>

lemmas ex2_defs = ex2_base_def ex2_nodes_def ex2_ir_def make_node_def

lemma ex_two_table:
  "value_table ex_two =
     Some [Some (vn_key ex_ir 15 4 (Some [7])), Some (vn_key ex_ir 16 4 (Some [8]))]"
  "length (nodes ex_two) = 16"
  by (simp_all add: ex_two_def vn_key_def vn_hash_def vn_defs ex_defs Let_def)

lemma ex_two_unshared: "handles_unshared ex_two"
  by (auto simp: handles_unshared_def ex_two_table nth_Cons' vn_key_def split: if_splits)

lemma ex_two_live: "handles_live ex_two"
  by (auto simp: handles_live_def ex_two_table vn_key_def)

lemma unshared_lawfulness_needed:
  "handles_live ex2_mem \<and> handles_unshared ex2_mem \<and> hash_respects ex2_ir ex2_mem \<and>
   \<not> ir_is_gimple_min_invariant ex2_ir 4 \<and>
   vuses_differ ex2_ir ex2_mem (Some [4]) (Some [5]) \<and>
   lookup_or_add_twice ex2_ir 4 (Some [4]) 4 (Some [5]) ex2_mem = Inr (7, 7)"
proof -
  have t: "value_table ex2_mem = Some [Some (vn_key ex2_ir 7 4 (Some [6]))]"
    "length (nodes ex2_mem) = 7"
    by (simp_all add: ex2_mem_def ex2_defs vn_key_def vn_hash_def vn_defs Let_def)
  have "handles_live ex2_mem"
    by (auto simp: handles_live_def t vn_key_def)
  moreover have "handles_unshared ex2_mem"
    by (auto simp: handles_unshared_def t)
  moreover have "hash_respects ex2_ir ex2_mem"
    by (simp add: hash_respects_def ex2_ir_def)
  moreover have "\<not> ir_is_gimple_min_invariant ex2_ir 4"
    by (simp add: ex2_ir_def)
  moreover have "vuses_differ ex2_ir ex2_mem (Some [4]) (Some [5])"
    by (simp add: vuses_differ_def ex2_mem_def ex2_defs vn_key_def vn_hash_def vn_defs Let_def)
  moreover have "lookup_or_add_twice ex2_ir 4 (Some [4]) 4 (Some [5]) ex2_mem = Inr (7, 7)"
    by (simp add: lookup_or_add_twice_def ex2_mem_def ex2_defs vn_key_def vn_hash_def vn_defs
        Let_def)
  ultimately show ?thesis by simp
qed

lemma live_handles_needed:
  "lawful ex_ir \<and> handles_unshared ex_dangling \<and> \<not> handles_live ex_dangling \<and>
   \<not> ir_is_gimple_min_invariant ex_ir 4 \<and> \<not> ir_is_gimple_min_invariant ex_ir 5 \<and>
   vuses_differ ex_ir ex_dangling (Some [7]) (Some [8]) \<and>
   vn_lookup ex_ir 4 (Some [7]) ex_dangling = Inr (NULL_TREE, ex_dangling) \<and>
   lookup_or_add_twice ex_ir 4 (Some [7]) 5 (Some [8]) ex_dangling = Inr (15, 15)"
proof -
  have "handles_unshared ex_dangling"
    by (auto simp: handles_unshared_def ex_dangling_def)
  moreover have "\<not> handles_live ex_dangling"
    by (simp add: handles_live_def ex_dangling_def vn_key_def ex_state_def ex_nodes_def)
  moreover have "\<not> ir_is_gimple_min_invariant ex_ir 4" "\<not> ir_is_gimple_min_invariant ex_ir 5"
    by (simp_all add: ex_ir_def)
  moreover have "vuses_differ ex_ir ex_dangling (Some [7]) (Some [8])"
    by (simp add: vuses_differ_def ex_dangling_def vn_defs ex_defs)
  moreover have "vn_lookup ex_ir 4 (Some [7]) ex_dangling = Inr (NULL_TREE, ex_dangling)"
    by (simp add: ex_dangling_def vn_key_def vn_hash_def vn_defs ex_defs Let_def)
  moreover have "lookup_or_add_twice ex_ir 4 (Some [7]) 5 (Some [8]) ex_dangling = Inr (15, 15)"
    by (simp add: lookup_or_add_twice_def ex_dangling_def vn_key_def vn_hash_def vn_defs ex_defs
        Let_def)
  ultimately show ?thesis using ex_lawful by simp
qed


section \<open>The claims\<close>

subsection \<open>Constants are their own value\<close>

text \<open>
  Claim C2.  For a constant (minimal invariant) node \<open>e\<close> and any virtual uses,
  \<open>vn_lookup\<close> returns \<open>e\<close> itself and leaves the state as it is, and
  \<open>vn_lookup_or_add\<close> returns \<open>e\<close> itself without creating a value handle: no node is
  allocated, the counter of handle ids and the value table are unchanged.
\<close>

theorem constant_self_identity:
  assumes "valid_tree s e" and "ir_is_gimple_min_invariant c e"
  shows "vn_lookup c e vuses s = Inr (e, s) \<and>
         (\<exists>s'. vn_lookup_or_add c e vuses s = Inr (e, s') \<and>
               length (nodes s') = length (nodes s) \<and>
               id_static s' = id_static s \<and>
               value_table s' = value_table s)"
proof -
  have l: "vn_lookup c e vuses s = Inr (e, s)"
    using assms by (rule vn_lookup_constant)
  obtain s' where s': "set_value_handle c e e s = Inr s'"
    using set_value_handle_total [of s e c e] assms by blast
  have "vn_lookup_or_add c e vuses s = Inr (e, s')"
    using assms(1) by (simp add: vn_lookup_or_add_def l s' valid_not_NULL)
  with l set_value_handle_frame [OF s'] show ?thesis by simp
qed

theorem constant_self_identity_witness:
  "valid_tree ex_state 6 \<and> ir_is_gimple_min_invariant ex_ir 6 \<and>
   vn_lookup ex_ir 6 (Some [7]) ex_state = Inr (6, ex_state) \<and>
   (\<exists>s'. vn_lookup_or_add ex_ir 6 (Some [7]) ex_state = Inr (6, s') \<and>
         length (nodes s') = length (nodes ex_state) \<and>
         id_static s' = id_static ex_state \<and>
         value_table s' = value_table ex_state)"
proof -
  have v: "valid_tree ex_state 6"
    by (simp add: valid_tree_def ex_state_def ex_nodes_def)
  have i: "ir_is_gimple_min_invariant ex_ir 6"
    by (simp add: ex_ir_def)
  from constant_self_identity [OF v i, of "Some [7]"] v i show ?thesis
    by simp
qed

subsection \<open>Statements are not hashed\<close>

text \<open>
  Claim C7.  \<open>vn_compute\<close> is defined on expressions only.  On a node that carries a
  statement annotation its assertion fails and the process aborts; on a node that is not
  a statement (no annotation, or an annotation of another kind) the assertion does not
  fire and the hash code is returned: the code of the expression hashed from the given
  seed, then the virtual uses in their order.
\<close>

theorem vn_compute_rejects_statements:
  assumes "valid_tree s expr"
  shows "(stmt_annotated (node_at s expr) \<longrightarrow>
            vn_compute c expr val vuses s = Inl ASSERT_FAILED) \<and>
         (\<not> stmt_annotated (node_at s expr) \<longrightarrow>
            vn_compute c expr val vuses s =
              Inr (fold (ir_iterative_hash_expr c) (vuse_ops vuses)
                     (ir_iterative_hash_expr c expr val)))"
  using assms by (simp add: vn_compute_stmt vn_compute_ok)

theorem vn_compute_rejects_statements_witness:
  "valid_tree ex_state 9 \<and> stmt_annotated (node_at ex_state 9) \<and>
   vn_compute ex_ir 9 0 None ex_state = Inl ASSERT_FAILED \<and>
   valid_tree ex_state 4 \<and> \<not> stmt_annotated (node_at ex_state 4) \<and>
   vn_compute ex_ir 4 0 (Some [7]) ex_state = Inr 19"
proof -
  have v9: "valid_tree ex_state 9" and v4: "valid_tree ex_state 4"
    by (simp_all add: valid_tree_def ex_state_def ex_nodes_def)
  have s9: "stmt_annotated (node_at ex_state 9)"
    by (simp add: stmt_annotated_def node_at_def ex_state_def ex_nodes_def make_node_def)
  have s4: "\<not> stmt_annotated (node_at ex_state 4)"
    by (simp add: stmt_annotated_def node_at_def ex_state_def ex_nodes_def make_node_def)
  have h: "fold (ir_iterative_hash_expr ex_ir) (vuse_ops (Some [7]))
             (ir_iterative_hash_expr ex_ir 4 0) = 19"
    by (simp add: ex_ir_def ex_rep_def vuse_ops_def)
  from vn_compute_rejects_statements [OF v9, of ex_ir 0 None]
    vn_compute_rejects_statements [OF v4, of ex_ir 0 "Some [7]"] v9 v4 s9 s4 h
  show ?thesis by simp
qed

subsection \<open>A lookup that finds nothing\<close>

text \<open>
  Claim C8, as stated, fails.  The claim is about every expression, and \<open>vn_lookup\<close>
  returns a constant itself before it looks at the table: with an empty table, where no
  entry has an equal key, the lookup of the constant returns the constant, not
  \<open>NULL_TREE\<close>.
\<close>

theorem constant_lookup_counterexample:
  "valid_tree ex_state 6 \<and> value_table ex_state = Some [] \<and>
   vn_lookup ex_ir 6 None ex_state = Inr (6, ex_state) \<and> (6 :: tree) \<noteq> NULL_TREE"
  by (simp add: ex_state_def NULL_TREE_def vn_defs ex_defs Let_def)

text \<open>
  Claim C8, amended.  For every expression, whatever \<open>vn_lookup\<close> returns, the state it
  leaves is the state it found: the value table and the handles recorded in the nodes
  are unchanged, nothing is created.  For a constant it returns the constant.  For an
  expression that is not a constant, when no entry of the table in the bucket of the key
  compares equal to the key, it returns \<open>NULL_TREE\<close>.
\<close>

theorem vn_lookup_no_entry:
  "(\<forall>v s'. vn_lookup c e d s = Inr (v, s') \<longrightarrow> s' = s) \<and>
   (valid_tree s e \<and> ir_is_gimple_min_invariant c e \<longrightarrow> vn_lookup c e d s = Inr (e, s)) \<and>
   (valid_tree s e \<and> \<not> ir_is_gimple_min_invariant c e \<and> \<not> stmt_annotated (node_at s e) \<and>
    value_table s = Some tab \<and>
    (\<forall>p. Some p \<in> set tab \<longrightarrow> val_expr_pair_hash p = vn_hash c e d \<longrightarrow>
           val_expr_pair_expr_eq c s p (vn_key c NULL_TREE e d) = Inr False) \<longrightarrow>
    vn_lookup c e d s = Inr (NULL_TREE, s))"
proof (intro conjI allI impI)
  fix v s'
  assume "vn_lookup c e d s = Inr (v, s')"
  then show "s' = s" by (rule vn_lookup_state)
next
  assume "valid_tree s e \<and> ir_is_gimple_min_invariant c e"
  then show "vn_lookup c e d s = Inr (e, s)"
    by (simp add: vn_lookup_constant)
next
  assume a: "valid_tree s e \<and> \<not> ir_is_gimple_min_invariant c e \<and>
    \<not> stmt_annotated (node_at s e) \<and> value_table s = Some tab \<and>
    (\<forall>p. Some p \<in> set tab \<longrightarrow> val_expr_pair_hash p = vn_hash c e d \<longrightarrow>
           val_expr_pair_expr_eq c s p (vn_key c NULL_TREE e d) = Inr False)"
  then have "htab_probe (\<lambda>p. val_expr_pair_expr_eq c s p (vn_key c NULL_TREE e d))
          (vn_hash c e d) tab = Inr None"
    by (intro htab_probe_all_False) simp
  with a vn_lookup_probe [of s e c tab d None] show "vn_lookup c e d s = Inr (NULL_TREE, s)"
    by simp
qed

theorem vn_lookup_no_entry_witness:
  "valid_tree ex_state_m1 5 \<and> \<not> ir_is_gimple_min_invariant ex_ir 5 \<and>
   \<not> stmt_annotated (node_at ex_state_m1 5) \<and>
   value_table ex_state_m1 = Some [None, Some (vn_key ex_ir 10 4 (Some [7]))] \<and>
   val_expr_pair_hash (vn_key ex_ir 10 4 (Some [7])) = vn_hash ex_ir 5 (Some [8]) \<and>
   val_expr_pair_expr_eq ex_ir ex_state_m1 (vn_key ex_ir 10 4 (Some [7]))
     (vn_key ex_ir NULL_TREE 5 (Some [8])) = Inr False \<and>
   vn_lookup ex_ir 5 (Some [8]) ex_state_m1 = Inr (NULL_TREE, ex_state_m1) \<and>
   valid_tree ex_state_m1 6 \<and> ir_is_gimple_min_invariant ex_ir 6 \<and>
   vn_lookup ex_ir 6 (Some [8]) ex_state_m1 = Inr (6, ex_state_m1)"
proof -
  have v: "valid_tree ex_state_m1 5"
    by (simp add: valid_tree_def ex_state_m1_def ex_state_def ex_nodes_def)
  have c: "\<not> ir_is_gimple_min_invariant ex_ir 5"
    by (simp add: ex_ir_def)
  have n: "\<not> stmt_annotated (node_at ex_state_m1 5)"
    by (simp add: stmt_annotated_def node_at_def ex_state_m1_def ex_state_def ex_nodes_def
        make_node_def)
  have t: "value_table ex_state_m1 = Some [None, Some (vn_key ex_ir 10 4 (Some [7]))]"
    by (simp add: ex_state_m1_def)
  have e: "val_expr_pair_expr_eq ex_ir ex_state_m1 (vn_key ex_ir 10 4 (Some [7]))
     (vn_key ex_ir NULL_TREE 5 (Some [8])) = Inr False"
    by (simp add: val_expr_pair_expr_eq_def expressions_equal_p_def deref_def valid_tree_def
        node_at_def NUM_VUSES_def vuse_ops_def ex_state_m1_def ex_state_def ex_nodes_def
        make_node_def ex_ir_def ex_rep_def)
  have a: "\<forall>p. Some p \<in> set [None, Some (vn_key ex_ir 10 4 (Some [7]))] \<longrightarrow>
        val_expr_pair_hash p = vn_hash ex_ir 5 (Some [8]) \<longrightarrow>
        val_expr_pair_expr_eq ex_ir ex_state_m1 p (vn_key ex_ir NULL_TREE 5 (Some [8])) = Inr False"
    using e by simp
  from vn_lookup_no_entry [of ex_ir 5 "Some [8]" ex_state_m1
      "[None, Some (vn_key ex_ir 10 4 (Some [7]))]"] v c n t a
  have l: "vn_lookup ex_ir 5 (Some [8]) ex_state_m1 = Inr (NULL_TREE, ex_state_m1)"
    by blast
  have k: "valid_tree ex_state_m1 6" "ir_is_gimple_min_invariant ex_ir 6"
    by (simp_all add: valid_tree_def ex_state_m1_def ex_state_def ex_nodes_def ex_ir_def)
  with vn_lookup_no_entry [of ex_ir 6 "Some [8]" ex_state_m1]
  have "vn_lookup ex_ir 6 (Some [8]) ex_state_m1 = Inr (6, ex_state_m1)"
    by blast
  with v c n t e ex_collision l k show ?thesis
    by blast
qed

subsection \<open>The handle of a node after \<open>vn_lookup_or_add\<close>\<close>

text \<open>
  Claim C9.  For a non-constant node that is an SSA name, an expression or a declaration,
  when \<open>vn_lookup_or_add\<close> returns the handle \<open>h\<close>, \<open>get_value_handle\<close> of that node
  returns \<open>h\<close> in the resulting state, whether \<open>h\<close> was found in the table or freshly
  made.  (In the witness the handle is found in the table: no node is allocated.)
\<close>

theorem vn_lookup_or_add_sets_handle:
  assumes "\<not> ir_is_gimple_min_invariant c e"
    and "node_code (node_at s e) = SSA_NAME \<or> EXPR_P (node_at s e) \<or> DECL_P (node_at s e)"
    and "vn_lookup_or_add c e d s = Inr (h, s')"
  shows "get_value_handle c e s' = Inr h"
proof -
  from assms(3) obtain s4 where "set_value_handle c e h s4 = Inr s'"
    by (auto simp: vn_lookup_or_add_def and_then_eq_Inr split: prod.splits)
  then show ?thesis
    using assms(1) by (rule set_value_handle_get)
qed

theorem vn_lookup_or_add_sets_handle_witness:
  "\<not> ir_is_gimple_min_invariant ex_ir 5 \<and>
   (node_code (node_at ex_state1 5) = SSA_NAME \<or> EXPR_P (node_at ex_state1 5)
      \<or> DECL_P (node_at ex_state1 5)) \<and>
   vn_lookup_or_add ex_ir 5 None ex_state1 =
     Inr (15, snd (projr (vn_lookup_or_add ex_ir 5 None ex_state1))) \<and>
   length (nodes (snd (projr (vn_lookup_or_add ex_ir 5 None ex_state1)))) =
     length (nodes ex_state1) \<and>
   get_value_handle ex_ir 5 (snd (projr (vn_lookup_or_add ex_ir 5 None ex_state1))) = Inr 15"
proof -
  have c: "\<not> ir_is_gimple_min_invariant ex_ir 5"
    by (simp add: ex_ir_def)
  have s1: "ex_state1 = snd (projr (vn_lookup_or_add ex_ir 4 None ex_state))"
    by (simp add: ex_state1_def vn_defs ex_defs Let_def)
  have k: "node_code (node_at ex_state1 5) = SSA_NAME \<or> EXPR_P (node_at ex_state1 5)
      \<or> DECL_P (node_at ex_state1 5)"
    by (simp add: ex_state1_def vn_defs ex_defs Let_def)
  have r: "vn_lookup_or_add ex_ir 5 None ex_state1 =
     Inr (15, snd (projr (vn_lookup_or_add ex_ir 5 None ex_state1)))"
    by (simp add: ex_state1_def vn_defs ex_defs Let_def)
  have n: "length (nodes (snd (projr (vn_lookup_or_add ex_ir 5 None ex_state1)))) =
     length (nodes ex_state1)"
    by (simp add: ex_state1_def vn_defs ex_defs Let_def)
  from vn_lookup_or_add_sets_handle [OF c k r] c k r n show ?thesis
    by blast
qed

subsection \<open>Adding a constant\<close>

text \<open>
  Claim C10.  After \<open>vn_add\<close> of a constant \<open>e\<close> with a value \<open>v\<close>, the table holds the
  entry for \<open>e\<close> and \<open>v\<close>, but \<open>vn_lookup\<close> of \<open>e\<close> still returns \<open>e\<close> itself: it
  returns before it probes the table.
\<close>

theorem vn_add_constant_unreachable:
  assumes "ir_is_gimple_min_invariant c e" and "vn_add c e v d s = Inr s'"
  shows "vn_lookup c e d s' = Inr (e, s') \<and>
         (\<exists>tab. value_table s' = Some tab \<and> Some (vn_key c v e d) \<in> set tab)"
proof -
  from assms(2) have "valid_tree s e"
    by (rule vn_add_Inr)
  with vn_add_frame(1) [OF assms(2)] have "valid_tree s' e"
    by (auto intro: extends_valid)
  then have l: "vn_lookup c e d s' = Inr (e, s')"
    using assms(1) by (rule vn_lookup_constant)
  from vn_add_then_probe [OF assms(2), of "\<lambda>q. val_expr_pair_expr_eq c s q (vn_key c v e d)"]
  obtain tab' i where "value_table s' = Some tab'" "i < length tab'"
    "tab' ! i = Some (vn_key c v e d)"
    by (auto simp: val_expr_pair_expr_eq_refl)
  then have "\<exists>tab. value_table s' = Some tab \<and> Some (vn_key c v e d) \<in> set tab"
    by (metis nth_mem)
  with l show ?thesis by simp
qed

theorem vn_add_constant_unreachable_witness:
  "ir_is_gimple_min_invariant ex_ir 6 \<and>
   vn_add ex_ir 6 10 None ex_state = Inr (projr (vn_add ex_ir 6 10 None ex_state)) \<and>
   vn_lookup ex_ir 6 None (projr (vn_add ex_ir 6 10 None ex_state)) =
     Inr (6, projr (vn_add ex_ir 6 10 None ex_state)) \<and>
   (\<exists>tab. value_table (projr (vn_add ex_ir 6 10 None ex_state)) = Some tab \<and>
          Some (vn_key ex_ir 10 6 None) \<in> set tab)"
proof -
  have i: "ir_is_gimple_min_invariant ex_ir 6"
    by (simp add: ex_ir_def)
  have "\<not> isl (vn_add ex_ir 6 10 None ex_state)"
    by (simp add: vn_defs ex_defs Let_def)
  then have a: "vn_add ex_ir 6 10 None ex_state = Inr (projr (vn_add ex_ir 6 10 None ex_state))"
    by simp
  from vn_add_constant_unreachable [OF i a] i a show ?thesis
    by simp
qed

subsection \<open>The operations outside a session\<close>

text \<open>
  Claim C6, as stated, fails.  The file keeps no session state and checks none: before
  \<open>vn_init\<close> and after \<open>vn_delete\<close> the table pointer is null, and only the functions
  that reach the table notice.  After a session is torn down \<open>get_value_handle\<close> still
  returns the handle recorded in a node, and \<open>vn_lookup\<close> and \<open>vn_lookup_or_add\<close> of a
  constant still return the constant: silent successes in the closed state.
\<close>

theorem closed_session_counterexample:
  "ex_session = Inr ex_closed \<and> value_table ex_closed = None \<and>
   get_value_handle ex_ir 4 ex_closed = Inr 15 \<and>
   vn_lookup ex_ir 6 None ex_closed = Inr (6, ex_closed) \<and>
   vn_lookup_or_add ex_ir 6 None ex_closed = Inr (6, ex_closed)"
  by (simp add: ex_closed_def ex_session_def vn_defs ex_defs Let_def)

text \<open>
  Claim C6, amended.  With no table (before \<open>vn_init\<close> or after \<open>vn_delete\<close>)
  \<open>vn_add\<close> of any expression, a second \<open>vn_delete\<close>, and \<open>vn_lookup\<close> and
  \<open>vn_lookup_or_add\<close> of a non-constant expression abort (an assertion of
  \<open>vn_compute\<close>, or the null table).  \<open>vn_lookup\<close> and \<open>vn_lookup_or_add\<close> of a
  constant return the constant, and \<open>get_value_handle\<close> returns what it returns in an
  active session: they do not consult the table.
\<close>

theorem operations_without_table:
  assumes "value_table s = None"
  shows "isl (vn_add c e v d s) \<and> isl (vn_delete s) \<and>
         (\<not> ir_is_gimple_min_invariant c e \<longrightarrow>
            isl (vn_lookup c e d s) \<and> isl (vn_lookup_or_add c e d s)) \<and>
         (ir_is_gimple_min_invariant c e \<and> valid_tree s e \<longrightarrow>
            vn_lookup c e d s = Inr (e, s) \<and>
            (\<exists>s'. vn_lookup_or_add c e d s = Inr (e, s'))) \<and>
         get_value_handle c e s = get_value_handle c e (vn_init s)"
proof -
  have "isl (vn_delete s)"
    using assms by (simp add: vn_delete_def)
  moreover have "get_value_handle c e s = get_value_handle c e (vn_init s)"
    by (simp add: vn_init_def)
  moreover have "ir_is_gimple_min_invariant c e \<and> valid_tree s e \<longrightarrow>
            vn_lookup c e d s = Inr (e, s) \<and>
            (\<exists>s'. vn_lookup_or_add c e d s = Inr (e, s'))"
    using vn_lookup_constant [of s e c d] vn_lookup_or_add_constant [of s e c d] by blast
  ultimately show ?thesis
    using assms vn_add_needs_table vn_lookup_needs_table vn_lookup_or_add_needs_table
    by blast
qed

theorem operations_without_table_witness:
  "value_table ex_closed = None \<and>
   isl (vn_add ex_ir 4 10 None ex_closed) \<and> isl (vn_delete ex_closed) \<and>
   isl (vn_lookup ex_ir 4 None ex_closed) \<and> isl (vn_lookup_or_add ex_ir 4 None ex_closed) \<and>
   get_value_handle ex_ir 4 ex_closed = get_value_handle ex_ir 4 (vn_init ex_closed)"
proof -
  have t: "value_table ex_closed = None"
    by (simp add: ex_closed_def ex_session_def vn_defs ex_defs Let_def)
  have c: "\<not> ir_is_gimple_min_invariant ex_ir 4"
    by (simp add: ex_ir_def)
  from operations_without_table [OF t, of ex_ir 4 10 None] t c show ?thesis
    by blast
qed

subsection \<open>A second \<open>vn_add\<close> replaces the entry\<close>

text \<open>
  Claim C4, as stated, fails in its last clause.  The table finds the entry to replace
  with the comparison of its collaborators, and the type compatibility of C is not
  transitive.  In \<open>ex2_before\<close> the first two conversions have one entry each and the
  two keys do not compare equal.  Two calls of \<open>vn_add\<close> for the third conversion
  replace the entry of the first, \<open>vn_lookup\<close> returns the second value, and the table
  then holds two entries whose keys compare equal.
\<close>

theorem equal_keys_two_entries_counterexample:
  "hash_respects ex2_ir ex2_before \<and> table_keyed ex2_ir ex2_before \<and>
   one_entry_per_key ex2_ir ex2_before \<and>
   value_table ex2_before = Some [Some (vn_key ex2_ir 7 4 None), Some (vn_key ex2_ir 8 5 None)] \<and>
   vn_session ex2_ir [VN_ADD 6 8 None, VN_ADD 6 7 None] ex2_before = Inr ex2_after \<and>
   vn_lookup ex2_ir 6 None ex2_after = Inr (7, ex2_after) \<and>
   value_table ex2_after = Some [Some (vn_key ex2_ir 7 6 None), Some (vn_key ex2_ir 8 5 None)] \<and>
   val_expr_pair_expr_eq ex2_ir ex2_after (vn_key ex2_ir 7 6 None) (vn_key ex2_ir 8 5 None) =
     Inr True \<and>
   \<not> one_entry_per_key ex2_ir ex2_after"
proof -
  have hr: "hash_respects ex2_ir ex2_before"
    by (simp add: hash_respects_def ex2_ir_def)
  have tb: "value_table ex2_before =
      Some [Some (vn_key ex2_ir 7 4 None), Some (vn_key ex2_ir 8 5 None)]"
    by (simp add: ex2_before_def ex2_defs vn_key_def vn_hash_def vn_defs Let_def)
  have k: "table_keyed ex2_ir ex2_before"
    by (auto simp: table_keyed_def tb nth_Cons' split: if_splits)
  have e45: "val_expr_pair_expr_eq ex2_ir ex2_before (vn_key ex2_ir 7 4 None)
        (vn_key ex2_ir 8 5 None) = Inr False"
      "val_expr_pair_expr_eq ex2_ir ex2_before (vn_key ex2_ir 8 5 None)
        (vn_key ex2_ir 7 4 None) = Inr False"
    by (simp_all add: ex2_before_def ex2_defs vn_key_def vn_hash_def vn_defs Let_def)
  have o: "one_entry_per_key ex2_ir ex2_before"
    using e45 by (auto simp: one_entry_per_key_def tb nth_Cons' split: if_splits)
  have r: "vn_session ex2_ir [VN_ADD 6 8 None, VN_ADD 6 7 None] ex2_before = Inr ex2_after"
    by (simp add: ex2_after_def ex2_before_def ex2_defs vn_key_def vn_hash_def vn_defs Let_def)
  have l: "vn_lookup ex2_ir 6 None ex2_after = Inr (7, ex2_after)"
    by (simp add: ex2_after_def ex2_before_def ex2_defs vn_key_def vn_hash_def vn_defs Let_def)
  have ta: "value_table ex2_after =
      Some [Some (vn_key ex2_ir 7 6 None), Some (vn_key ex2_ir 8 5 None)]"
    by (simp add: ex2_after_def ex2_before_def ex2_defs vn_key_def vn_hash_def vn_defs Let_def)
  have e: "val_expr_pair_expr_eq ex2_ir ex2_after (vn_key ex2_ir 7 6 None)
        (vn_key ex2_ir 8 5 None) = Inr True"
    by (simp add: ex2_after_def ex2_before_def ex2_defs vn_key_def vn_hash_def vn_defs Let_def)
  have "\<not> one_entry_per_key ex2_ir ex2_after"
  proof
    assume "one_entry_per_key ex2_ir ex2_after"
    then have "val_expr_pair_expr_eq ex2_ir ex2_after (vn_key ex2_ir 7 6 None)
        (vn_key ex2_ir 8 5 None) \<noteq> Inr True"
      unfolding one_entry_per_key_def using ta
      by (elim allE [of _ "[Some (vn_key ex2_ir 7 6 None), Some (vn_key ex2_ir 8 5 None)]"]
          allE [of _ "0::nat"] allE [of _ "1::nat"]) simp
    with e show False by simp
  qed
  with hr k o tb r l ta e show ?thesis by simp
qed

text \<open>
  Claim C4, amended.  For a non-constant expression \<open>e\<close>, after \<open>vn_add\<close> of \<open>e\<close> with
  the value \<open>h1\<close> the second \<open>vn_add\<close> of \<open>e\<close> with the value \<open>h2\<close> and the same
  virtual uses succeeds, \<open>vn_lookup\<close> then returns \<open>h2\<close>, and the table after the
  second call is the table after the first with the one slot that held the entry for
  \<open>h1\<close> overwritten by the entry for \<open>h2\<close>: the table does not grow.  When the
  collaborators keep the contract of the hash table (comparisons symmetric and
  transitive, equal expressions hashed equally) and, before the two calls, every entry
  carries the hash code of its key and no two entries have equal keys, then no two
  entries have equal keys after the first call and after the second.
  (In the witness the first call itself replaces the entry of an equal expression.)
\<close>

theorem vn_add_replaces:
  assumes "\<not> ir_is_gimple_min_invariant c e"
    and "vn_add c e h1 d s = Inr s1"
    and "valid_tree s h2"
  shows "\<exists>s2 tab1 i.
           vn_add c e h2 d s1 = Inr s2 \<and>
           vn_lookup c e d s2 = Inr (h2, s2) \<and>
           value_table s1 = Some tab1 \<and> i < length tab1 \<and>
           tab1 ! i = Some (vn_key c h1 e d) \<and>
           value_table s2 = Some (tab1[i := Some (vn_key c h2 e d)]) \<and>
           (lawful c \<and> hash_respects c s \<and> table_keyed c s \<and> one_entry_per_key c s \<longrightarrow>
              one_entry_per_key c s1 \<and> one_entry_per_key c s2)"
proof -
  let ?h = "vn_hash c e d"
  let ?k1 = "vn_key c h1 e d" and ?k2 = "vn_key c h2 e d" and ?k0 = "vn_key c NULL_TREE e d"
  from assms(2) have e: "valid_tree s e" "\<not> stmt_annotated (node_at s e)"
    by (auto elim: vn_add_Inr)
  note ext1 = vn_add_frame(1) [OF assms(2)]
  have e1: "valid_tree s1 e" "\<not> stmt_annotated (node_at s1 e)" "valid_tree s1 h2"
    "handle_settable c s1 e"
    using ext1 e assms(3) vn_add_settable(1) [OF assms(2)]
    by (simp_all add: extends_valid extends_stmt handle_settable_extends)
  \<comment> \<open>the entry of the first call is the one the second call finds\<close>
  have "\<exists>tab tab' i. value_table s = Some tab \<and> value_table s1 = Some tab' \<and>
           i < length tab' \<and> tab' ! i = Some ?k1 \<and>
           htab_probe (\<lambda>q. val_expr_pair_expr_eq c s1 q ?k2) ?h tab' = Inr (Some i) \<and>
           (i < length tab \<and> tab' = tab[i := Some ?k1] \<or>
            i = length tab \<and> tab' = tab @ [Some ?k1])"
  proof (rule vn_add_then_probe [OF assms(2)])
    fix q b
    assume "val_expr_pair_expr_eq c s q ?k1 = Inr b"
    then have "val_expr_pair_expr_eq c s1 q ?k1 = Inr b"
      using ext1 by (rule val_expr_pair_expr_eq_extends [rotated])
    then show "val_expr_pair_expr_eq c s1 q ?k2 = Inr b"
      by (simp add: val_expr_pair_expr_eq_key [of ?k1 ?k2])
  next
    show "val_expr_pair_expr_eq c s1 ?k1 ?k2 = Inr True"
      by (simp add: val_expr_pair_expr_eq_refl)
  qed
  then obtain tab1 i where t1: "value_table s1 = Some tab1" "i < length tab1"
    "tab1 ! i = Some ?k1"
    "htab_probe (\<lambda>q. val_expr_pair_expr_eq c s1 q ?k2) ?h tab1 = Inr (Some i)"
    by blast
  from vn_add_total [OF e1(1,2,4,3) t1(1,4)] obtain s2 where s2: "vn_add c e h2 d s1 = Inr s2"
    by blast
  from vn_add_table [OF s2 t1(1,4)] have t2: "value_table s2 = Some (tab1[i := Some ?k2])"
    by simp
  note ext2 = vn_add_frame(1) [OF s2]
  have e2: "valid_tree s2 e" "\<not> stmt_annotated (node_at s2 e)"
    using ext2 e1 by (simp_all add: extends_valid extends_stmt)
  \<comment> \<open>and the one a lookup finds afterwards\<close>
  have "\<exists>tab tab' j. value_table s1 = Some tab \<and> value_table s2 = Some tab' \<and>
           j < length tab' \<and> tab' ! j = Some ?k2 \<and>
           htab_probe (\<lambda>q. val_expr_pair_expr_eq c s2 q ?k0) ?h tab' = Inr (Some j) \<and>
           (j < length tab \<and> tab' = tab[j := Some ?k2] \<or>
            j = length tab \<and> tab' = tab @ [Some ?k2])"
  proof (rule vn_add_then_probe [OF s2])
    fix q b
    assume "val_expr_pair_expr_eq c s1 q ?k2 = Inr b"
    then have "val_expr_pair_expr_eq c s2 q ?k2 = Inr b"
      using ext2 by (rule val_expr_pair_expr_eq_extends [rotated])
    then show "val_expr_pair_expr_eq c s2 q ?k0 = Inr b"
      by (simp add: val_expr_pair_expr_eq_key [of ?k2 ?k0])
  next
    show "val_expr_pair_expr_eq c s2 ?k2 ?k0 = Inr True"
      by (simp add: val_expr_pair_expr_eq_refl)
  qed
  then obtain tab2 j where l: "value_table s2 = Some tab2" "tab2 ! j = Some ?k2"
    "htab_probe (\<lambda>q. val_expr_pair_expr_eq c s2 q ?k0) ?h tab2 = Inr (Some j)"
    by blast
  from vn_lookup_probe [OF e2(1) assms(1) e2(2) l(1,3)] l(2)
  have "vn_lookup c e d s2 = Inr (h2, s2)"
    by simp
  \<comment> \<open>neither call leaves two entries with equal keys\<close>
  moreover have "one_entry_per_key c s1 \<and> one_entry_per_key c s2"
    if c: "lawful c \<and> hash_respects c s \<and> table_keyed c s \<and> one_entry_per_key c s"
  proof -
    from c vn_add_one_entry_per_key [OF _ _ _ _ assms(2)]
    have k1: "table_keyed c s1" "one_entry_per_key c s1"
      by simp_all
    have "hash_respects c s1"
      using c hash_respects_same [OF vn_add_frame(1,3) [OF assms(2)]] by simp
    with c k1 vn_add_one_entry_per_key [OF _ _ _ _ s2] show ?thesis
      by simp
  qed
  ultimately show ?thesis
    using s2 t1 t2 by blast
qed

theorem vn_add_replaces_witness:
  "\<not> ir_is_gimple_min_invariant ex_ir 5 \<and>
   vn_add ex_ir 5 14 (Some [7]) ex_state_m1 =
     Inr (projr (vn_add ex_ir 5 14 (Some [7]) ex_state_m1)) \<and>
   valid_tree ex_state_m1 10 \<and>
   value_table ex_state_m1 = Some [None, Some (vn_key ex_ir 10 4 (Some [7]))] \<and>
   value_table (projr (vn_add ex_ir 5 14 (Some [7]) ex_state_m1)) =
     Some [None, Some (vn_key ex_ir 14 5 (Some [7]))] \<and>
   lawful ex_ir \<and> hash_respects ex_ir ex_state_m1 \<and>
   table_keyed ex_ir ex_state_m1 \<and> one_entry_per_key ex_ir ex_state_m1 \<and>
   (\<exists>s2 tab1 i.
      vn_add ex_ir 5 10 (Some [7]) (projr (vn_add ex_ir 5 14 (Some [7]) ex_state_m1)) = Inr s2 \<and>
      vn_lookup ex_ir 5 (Some [7]) s2 = Inr (10, s2) \<and>
      value_table (projr (vn_add ex_ir 5 14 (Some [7]) ex_state_m1)) = Some tab1 \<and>
      i < length tab1 \<and>
      tab1 ! i = Some (vn_key ex_ir 14 5 (Some [7])) \<and>
      value_table s2 = Some (tab1[i := Some (vn_key ex_ir 10 5 (Some [7]))]) \<and>
      one_entry_per_key ex_ir (projr (vn_add ex_ir 5 14 (Some [7]) ex_state_m1)) \<and>
      one_entry_per_key ex_ir s2)"
proof -
  have c: "\<not> ir_is_gimple_min_invariant ex_ir 5"
    by (simp add: ex_ir_def)
  have "\<not> isl (vn_add ex_ir 5 14 (Some [7]) ex_state_m1)"
    by (simp add: ex_state_m1_def vn_key_def vn_hash_def vn_defs ex_defs Let_def)
  then have a: "vn_add ex_ir 5 14 (Some [7]) ex_state_m1 =
     Inr (projr (vn_add ex_ir 5 14 (Some [7]) ex_state_m1))"
    by simp
  have v: "valid_tree ex_state_m1 10"
    by (simp add: valid_tree_def ex_state_m1_def ex_state_def ex_nodes_def)
  have t: "value_table ex_state_m1 = Some [None, Some (vn_key ex_ir 10 4 (Some [7]))]"
    by (simp add: ex_state_m1_def)
  have k: "table_keyed ex_ir ex_state_m1"
    by (auto simp: table_keyed_def t nth_Cons' split: if_splits)
  have o: "one_entry_per_key ex_ir ex_state_m1"
    by (auto simp: one_entry_per_key_def t nth_Cons' split: if_splits)
  from vn_add_replaces [OF c a v] c a v t ex_replace_run ex_lawful ex_hash_respects k o
  show ?thesis
    by blast
qed

subsection \<open>The ids of value handles\<close>

text \<open>
  Claim C5, as stated, fails.  The id of a new handle is the value of a 32-bit unsigned
  counter that \<open>make_value_handle\<close> increments and nothing resets or checks.  When the
  counter holds its last value (as it does after \<open>2^32 - 1\<close> creations, lemma
  \<open>counter_reaches_wrap\<close>) the next two handles that a session creates get the ids
  \<open>0xFFFFFFFF\<close> and \<open>0\<close>: the later id is the smaller one, and it is the id of the
  first handle ever created (lemma \<open>id_reused_after_wrap\<close>).
\<close>

theorem session_ids_wrap_counterexample:
  "vn_session ex_ir ex_wrap_calls ex_wrap = Inr (projr (vn_session ex_ir ex_wrap_calls ex_wrap)) \<and>
   created_between ex_wrap (projr (vn_session ex_ir ex_wrap_calls ex_wrap)) = [15, 16] \<and>
   map (VALUE_HANDLE_ID (projr (vn_session ex_ir ex_wrap_calls ex_wrap)))
     (created_between ex_wrap (projr (vn_session ex_ir ex_wrap_calls ex_wrap))) = [0xFFFFFFFF, 0] \<and>
   (0 :: 32 word) < 0xFFFFFFFF"
proof -
  let ?s' = "projr (vn_session ex_ir ex_wrap_calls ex_wrap)"
  have "\<not> isl (vn_session ex_ir ex_wrap_calls ex_wrap)"
    by (simp add: ex_wrap_calls_def ex_wrap_def vn_defs ex_defs Let_def)
  then have r: "vn_session ex_ir ex_wrap_calls ex_wrap = Inr ?s'"
    by simp
  have n: "length (nodes ?s') = 16"
    by (simp add: ex_wrap_calls_def ex_wrap_def vn_defs ex_defs Let_def)
  have l0: "length (nodes ex_wrap) = 14"
    by (simp add: ex_wrap_def ex_state_def ex_nodes_def)
  have b: "created_between ex_wrap ?s' = [15, 16]"
    by (simp add: created_between_def n l0 upt_conv_Cons)
  have "VALUE_HANDLE_ID ?s' 15 = 0xFFFFFFFF" "VALUE_HANDLE_ID ?s' 16 = 0"
    by (simp_all add: VALUE_HANDLE_ID_def ex_wrap_calls_def ex_wrap_def vn_defs ex_defs Let_def)
  then have i: "map (VALUE_HANDLE_ID ?s') (created_between ex_wrap ?s') = [0xFFFFFFFF, 0]"
    by (simp add: b)
  from r b i show ?thesis
    by simp
qed

text \<open>
  Claim C5, amended.  In any sequence of calls of the functions of this file that does
  not abort, as long as the counter does not wrap (its value at the start and the number
  of handles created are at most \<open>2^32\<close> together), the ids of the handles created,
  in creation order, strictly increase, so no id occurs twice.
\<close>

theorem session_ids_increase_until_wrap:
  assumes "vn_session c calls s = Inr s'"
    and "unat (id_static s) + length (created_between s s') \<le> 2 ^ 32"
  shows "sorted_wrt (<) (map (VALUE_HANDLE_ID s') (created_between s s')) \<and>
         distinct (map (VALUE_HANDLE_ID s') (created_between s s'))"
proof -
  let ?n = "length (nodes s') - length (nodes s)"
  let ?ids = "map (\<lambda>k. id_static s + of_nat k) [0..<?n]"
  have n: "length (created_between s s') = ?n"
    by (simp add: created_between_def)
  have lt: "id_static s + of_nat i < id_static s + of_nat j" if "i < j" "j < ?n" for i j
    using that assms(2) n by (intro counter_step_less) simp_all
  have s: "sorted_wrt (<) ?ids"
    by (simp add: sorted_wrt_map sorted_wrt_upt lt sorted_wrt_iff_nth_less)
  have "distinct ?ids"
    unfolding distinct_conv_nth
  proof (intro allI impI)
    fix i j
    assume "i < length ?ids" "j < length ?ids" "i \<noteq> j"
    then consider "i < j" "j < ?n" | "j < i" "i < ?n" by fastforce
    then show "?ids ! i \<noteq> ?ids ! j"
    proof cases
      case 1
      from lt [OF 1] have "(of_nat i :: 32 word) \<noteq> of_nat j"
        by (metis less_irrefl)
      with 1 show ?thesis by simp
    next
      case 2
      from lt [OF 2] have "(of_nat i :: 32 word) \<noteq> of_nat j"
        by (metis less_irrefl)
      with 2 show ?thesis by simp
    qed
  qed
  with s created_ids_between [OF assms(1)] show ?thesis
    by simp
qed

theorem session_ids_increase_until_wrap_witness:
  "vn_session ex_ir ex_calls ex_state = Inr (projr (vn_session ex_ir ex_calls ex_state)) \<and>
   created_between ex_state (projr (vn_session ex_ir ex_calls ex_state)) = [15, 16, 17] \<and>
   unat (id_static ex_state) +
     length (created_between ex_state (projr (vn_session ex_ir ex_calls ex_state))) \<le> 2 ^ 32 \<and>
   map (VALUE_HANDLE_ID (projr (vn_session ex_ir ex_calls ex_state)))
     (created_between ex_state (projr (vn_session ex_ir ex_calls ex_state))) = [0, 1, 2] \<and>
   sorted_wrt (<) (map (VALUE_HANDLE_ID (projr (vn_session ex_ir ex_calls ex_state)))
     (created_between ex_state (projr (vn_session ex_ir ex_calls ex_state)))) \<and>
   distinct (map (VALUE_HANDLE_ID (projr (vn_session ex_ir ex_calls ex_state)))
     (created_between ex_state (projr (vn_session ex_ir ex_calls ex_state))))"
proof -
  let ?s' = "projr (vn_session ex_ir ex_calls ex_state)"
  have "\<not> isl (vn_session ex_ir ex_calls ex_state)"
    by (simp add: ex_calls_def vn_defs ex_defs Let_def)
  then have r: "vn_session ex_ir ex_calls ex_state = Inr ?s'"
    by simp
  have n: "length (nodes ?s') = 17"
    by (simp add: ex_calls_def vn_defs ex_defs Let_def)
  have l0: "length (nodes ex_state) = 14" and i0: "id_static ex_state = 0"
    by (simp_all add: ex_state_def ex_nodes_def)
  have b: "created_between ex_state ?s' = [15, 16, 17]"
    by (simp add: created_between_def n l0 upt_conv_Cons)
  have h: "unat (id_static ex_state) + length (created_between ex_state ?s') \<le> 2 ^ 32"
    by (simp add: b i0)
  have i: "map (VALUE_HANDLE_ID ?s') (created_between ex_state ?s') = [0, 1, 2]"
    by (simp add: created_ids_between [OF r] n l0 i0 upt_conv_Cons)
  from session_ids_increase_until_wrap [OF r h] r b h i show ?thesis
    by blast
qed

subsection \<open>Equal expressions get one handle\<close>




subsection \<open>Different virtual uses\<close>




end
